theory Spec2Isabelle
  imports Main "HOL-Library.Multiset"
begin

section \<open>libtiled object groups: objectgroup.cpp\<close>

text \<open>
  A shallow embedding of \<^verbatim>\<open>src/libtiled/objectgroup.cpp\<close>. A \<^verbatim>\<open>MapObject *\<close> is
  its address (a natural number); the name behind a pointer is looked up
  through a function \<open>nm\<close>. Indices are C++ \<^verbatim>\<open>int\<close>s, modelled as unbounded
  integers. An index outside a \<^verbatim>\<open>QVector\<close> trips Qt's range assertion and a
  failed \<^verbatim>\<open>Q_ASSERT\<close> aborts: both are error values, and so is following a
  pointer that addresses nothing. A loop that may run for ever takes fuel, and
  \<open>None\<close> means that the fuel did not suffice.
\<close>

subsection \<open>Errors, vectors, integer division\<close>

datatype error = IndexOutOfRange | AssertionFailed | InvalidPointer

type_synonym handle = nat

definition vec_at :: "'a list \<Rightarrow> int \<Rightarrow> error + 'a" where
  "vec_at vec i =
     (if 0 \<le> i \<and> i < int (length vec) then Inr (vec ! nat i) else Inl IndexOutOfRange)"

definition vec_set :: "'a list \<Rightarrow> int \<Rightarrow> 'a \<Rightarrow> error + 'a list" where
  "vec_set vec i v =
     (if 0 \<le> i \<and> i < int (length vec) then Inr (vec[nat i := v]) else Inl IndexOutOfRange)"

text \<open>A run of assignments \<^verbatim>\<open>vec[i] = v;\<close> in program order.\<close>

fun vec_sets :: "'a list \<Rightarrow> (int \<times> 'a) list \<Rightarrow> error + 'a list" where
  "vec_sets vec [] = Inr vec"
| "vec_sets vec ((i, v) # rest) =
     (case vec_set vec i v of Inl e \<Rightarrow> Inl e | Inr vec' \<Rightarrow> vec_sets vec' rest)"

text \<open>\<^verbatim>\<open>QVector::remove(i)\<close>, called only after \<^verbatim>\<open>vec[i]\<close> has been read.\<close>

definition vec_remove :: "'a list \<Rightarrow> int \<Rightarrow> 'a list" where
  "vec_remove vec i = take (nat i) vec @ drop (Suc (nat i)) vec"

text \<open>\<^verbatim>\<open>QVector::insert(i, v)\<close> asserts \<open>0 \<le> i \<le> size\<close>.\<close>

definition vec_insert :: "'a list \<Rightarrow> int \<Rightarrow> 'a \<Rightarrow> error + 'a list" where
  "vec_insert vec i v =
     (if 0 \<le> i \<and> i \<le> int (length vec)
      then Inr (take (nat i) vec @ v # drop (nat i) vec) else Inl IndexOutOfRange)"

text \<open>The C++ quotient of two \<^verbatim>\<open>int\<close>s truncates towards zero.\<close>

definition tdiv :: "int \<Rightarrow> int \<Rightarrow> int" where
  "tdiv a b = sgn a * sgn b * (\<bar>a\<bar> div \<bar>b\<bar>)"

text \<open>Sequencing of runs that may abort or run out of fuel.\<close>

fun bindR :: "(error + 'a) option \<Rightarrow> ('a \<Rightarrow> (error + 'b) option) \<Rightarrow> (error + 'b) option" where
  "bindR None f = None"
| "bindR (Some (Inl e)) f = Some (Inl e)"
| "bindR (Some (Inr v)) f = f v"

subsection \<open>Case-insensitive comparison of names\<close>

text \<open>
  \<^verbatim>\<open>QString::compare(a, b, Qt::CaseInsensitive)\<close> on names of ASCII characters:
  the code units are case-folded and compared lexicographically; only the sign
  of the result is used by the callers.
\<close>

definition foldCase :: "char \<Rightarrow> nat" where
  "foldCase c = (let n = of_char c in if 65 \<le> n \<and> n \<le> 90 then n + 32 else n)"

fun compareCodes :: "nat list \<Rightarrow> nat list \<Rightarrow> int" where
  "compareCodes [] [] = 0"
| "compareCodes [] (y # ys) = - 1"
| "compareCodes (x # xs) [] = 1"
| "compareCodes (x # xs) (y # ys) =
     (if x < y then - 1 else if y < x then 1 else compareCodes xs ys)"

definition compare_ci :: "string \<Rightarrow> string \<Rightarrow> int" where
  "compare_ci a b = compareCodes (map foldCase a) (map foldCase b)"

text \<open>
  Modelled from the spec: \<^verbatim>\<open>MapObject::equals\<close> is declared in mapobject.h, which is
  not part of the sources; the spec gives it as equality of entity identity.
\<close>

definition equals :: "handle \<Rightarrow> handle \<Rightarrow> bool" where
  "equals a b = (a = b)"

subsection \<open>\<^verbatim>\<open>ObjectGroup::reorder\<close>\<close>

text \<open>First loop: excise the first element of \<open>[begin, end)\<close> that equals the pivot.\<close>

function findPivot :: "handle list \<Rightarrow> handle \<Rightarrow> int \<Rightarrow> int \<Rightarrow> error + (handle list \<times> int)" where
  "findPivot vec pivot i end =
     (if i < end then
        (case vec_at vec i of Inl e \<Rightarrow> Inl e
         | Inr v \<Rightarrow>
             if equals v pivot then Inr (vec_remove vec i, end - 1)
             else findPivot vec pivot (i + 1) end)
      else Inr (vec, end))"
  by pat_completeness auto
termination
  by (relation "measure (\<lambda>(vec, pivot, i, e). nat (e - i))") auto

text \<open>Second loop: \<^verbatim>\<open>newVec.push_front(vec[i])\<close> for \<open>i\<close> in \<open>[0, begin)\<close>.\<close>

function pushPrefix :: "handle list \<Rightarrow> handle list \<Rightarrow> int \<Rightarrow> int \<Rightarrow> error + handle list" where
  "pushPrefix newVec vec i begin =
     (if i < begin then
        (case vec_at vec i of Inl e \<Rightarrow> Inl e
         | Inr v \<Rightarrow> pushPrefix (v # newVec) vec (i + 1) begin)
      else Inr newVec)"
  by pat_completeness auto
termination
  by (relation "measure (\<lambda>(newVec, vec, i, b). nat (b - i))") auto

text \<open>
  Third loop: an element with \<^verbatim>\<open>compare(checkString, readStr) >= 0\<close> is inserted
  at index \<open>begin\<close> of \<open>newVec\<close> and counted; any other is appended.
\<close>

function splitRange ::
  "(handle \<Rightarrow> string) \<Rightarrow> string \<Rightarrow> handle list \<Rightarrow> int \<Rightarrow> handle list \<Rightarrow> int \<Rightarrow> int \<Rightarrow> int
     \<Rightarrow> error + (handle list \<times> int)" where
  "splitRange nm checkString newVec pivotLocation vec i begin end =
     (if i < end then
        (case vec_at vec i of Inl e \<Rightarrow> Inl e
         | Inr v \<Rightarrow>
             if compare_ci checkString (nm v) \<ge> 0 then
               (case vec_insert newVec begin v of Inl e \<Rightarrow> Inl e
                | Inr newVec' \<Rightarrow>
                    splitRange nm checkString newVec' (pivotLocation + 1) vec (i + 1) begin end)
             else splitRange nm checkString (newVec @ [v]) pivotLocation vec (i + 1) begin end)
      else Inr (newVec, pivotLocation))"
  by pat_completeness auto
termination
  by (relation "measure (\<lambda>(nm, c, newVec, p, vec, i, b, e). nat (e - i))") auto

text \<open>Fourth loop: append \<open>vec[i]\<close> for \<open>i\<close> in \<open>[end, vec.size())\<close>.\<close>

function appendSuffix :: "handle list \<Rightarrow> handle list \<Rightarrow> int \<Rightarrow> error + handle list" where
  "appendSuffix newVec vec i =
     (if i < int (length vec) then
        (case vec_at vec i of Inl e \<Rightarrow> Inl e
         | Inr v \<Rightarrow> appendSuffix (newVec @ [v]) vec (i + 1))
      else Inr newVec)"
  by pat_completeness auto
termination
  by (relation "measure (\<lambda>(newVec, vec, i). nat (int (length vec) - i))") auto

text \<open>The result is the new contents of \<open>vec\<close> and the returned \<open>pivotLocation\<close>.\<close>

definition reorder ::
  "(handle \<Rightarrow> string) \<Rightarrow> handle list \<Rightarrow> handle \<Rightarrow> int \<Rightarrow> int \<Rightarrow> error + (handle list \<times> int)" where
  "reorder nm vec pivot begin end =
     (case findPivot vec pivot begin end of Inl e \<Rightarrow> Inl e
      | Inr (vec1, end1) \<Rightarrow>
     (case pushPrefix [pivot] vec1 0 begin of Inl e \<Rightarrow> Inl e
      | Inr newVec1 \<Rightarrow>
     (case splitRange nm (nm pivot) newVec1 begin vec1 begin begin end1 of Inl e \<Rightarrow> Inl e
      | Inr (newVec2, pivotLocation) \<Rightarrow>
     (case appendSuffix newVec2 vec1 end1 of Inl e \<Rightarrow> Inl e
      | Inr newVec3 \<Rightarrow> Inr (newVec3, pivotLocation)))))"

subsection \<open>\<^verbatim>\<open>ObjectGroup::partition\<close>\<close>

text \<open>
  The six branches of \<open>partition\<close> up to their final \<^verbatim>\<open>return reorder(...)\<close>: the
  buffer after the assignments of the branch taken, and the pivot handed on.
\<close>

definition partition_pivot ::
  "(handle \<Rightarrow> string) \<Rightarrow> handle list \<Rightarrow> int \<Rightarrow> int \<Rightarrow> error + (handle list \<times> handle)" where
  "partition_pivot nm vec begin end =
     (case vec_at vec begin of Inl e \<Rightarrow> Inl e | Inr first \<Rightarrow>
     (case vec_at vec (end - 1) of Inl e \<Rightarrow> Inl e | Inr last' \<Rightarrow>
     (case vec_at vec (begin + tdiv (end - begin) 2) of Inl e \<Rightarrow> Inl e | Inr middle \<Rightarrow>
       (let start = nm first; midway = nm middle; finish = nm last';
            mid = begin + tdiv (end - begin) 2;
            back = int (length vec) - 1;
            assign = (\<lambda>ws pivot. case vec_sets vec ws of Inl e \<Rightarrow> Inl e
                                   | Inr vec' \<Rightarrow> Inr (vec', pivot))
        in
        if compare_ci start finish \<ge> 0 then
          if compare_ci start midway \<ge> 0 then
            if compare_ci midway finish \<ge> 0
            then assign [(0, last'), (back, first)] middle
            else assign [(0, middle), (mid, last'), (back, first)] last'
          else assign [(0, last'), (mid, first), (back, middle)] first
        else
          if compare_ci start midway \<le> 0 then
            if compare_ci midway finish \<ge> 0
            then assign [(mid, last'), (back, middle)] last'
            else assign [] middle
          else assign [(0, middle), (mid, first)] first))))"

definition partition ::
  "(handle \<Rightarrow> string) \<Rightarrow> handle list \<Rightarrow> int \<Rightarrow> int \<Rightarrow> error + (handle list \<times> int)" where
  "partition nm vec begin end =
     (case partition_pivot nm vec begin end of Inl e \<Rightarrow> Inl e
      | Inr (vec', pivot) \<Rightarrow> reorder nm vec' pivot begin end)"

subsection \<open>\<^verbatim>\<open>siftDown\<close>, \<^verbatim>\<open>heapify\<close>, \<^verbatim>\<open>heapSort\<close>\<close>

text \<open>
  One iteration of the \<^verbatim>\<open>while\<close> loop of \<open>siftDown\<close> per unit of fuel. The tests
  \<^verbatim>\<open>vec[swap] < vec[child]\<close> compare the pointers themselves. The first two
  branches only assign \<open>swap\<close>, which the next iteration resets to \<open>root\<close>.
\<close>

fun siftDown_loop :: "nat \<Rightarrow> handle list \<Rightarrow> int \<Rightarrow> int \<Rightarrow> (error + handle list) option" where
  "siftDown_loop 0 vec root siftEnd = None"
| "siftDown_loop (Suc k) vec root siftEnd =
     (if root * 2 + 1 \<le> siftEnd then
        (let child = root * 2 + 1; swap = root in
         case vec_at vec swap of Inl e \<Rightarrow> Some (Inl e) | Inr vs \<Rightarrow>
        (case vec_at vec child of Inl e \<Rightarrow> Some (Inl e) | Inr vc \<Rightarrow>
         if vs < vc then siftDown_loop k vec root siftEnd
         else
          (case (if child + 1 \<le> siftEnd
                 then (case vec_at vec (child + 1) of Inl e \<Rightarrow> Inl e | Inr vc1 \<Rightarrow> Inr (vs < vc1))
                 else Inr False) of
             Inl e \<Rightarrow> Some (Inl e)
           | Inr True \<Rightarrow> siftDown_loop k vec root siftEnd
           | Inr False \<Rightarrow>
               if swap = root then Some (Inr vec)
               else
                (case vec_at vec root of Inl e \<Rightarrow> Some (Inl e) | Inr temp \<Rightarrow>
                (case vec_sets vec [(root, vs), (swap, temp)] of Inl e \<Rightarrow> Some (Inl e)
                 | Inr vec' \<Rightarrow> siftDown_loop k vec' swap siftEnd)))))
      else Some (Inr vec))"

definition siftDown :: "nat \<Rightarrow> handle list \<Rightarrow> int \<Rightarrow> int \<Rightarrow> (error + handle list) option" where
  "siftDown fuel vec siftBegin siftEnd = siftDown_loop fuel vec siftBegin siftEnd"

fun heapify_loop ::
  "nat \<Rightarrow> handle list \<Rightarrow> int \<Rightarrow> int \<Rightarrow> int \<Rightarrow> (error + handle list) option" where
  "heapify_loop 0 vec start begin end = None"
| "heapify_loop (Suc k) vec start begin end =
     (if start \<ge> begin then
        bindR (siftDown k vec begin (end - 1)) (\<lambda>vec'. heapify_loop k vec' (start - 1) begin end)
      else Some (Inr vec))"

definition heapify :: "nat \<Rightarrow> handle list \<Rightarrow> int \<Rightarrow> int \<Rightarrow> (error + handle list) option" where
  "heapify fuel vec begin end = heapify_loop fuel vec (begin + tdiv (end - 2) 2) begin end"

text \<open>
  The loop of \<open>heapSort\<close>: \<open>last\<close> is tested and never assigned; \<open>end\<close> is
  decremented. The model lets \<open>end\<close> fall without bound; a C++ \<^verbatim>\<open>int\<close> overflows
  after some two thousand million rounds, which the language leaves undefined.
\<close>

fun heapSort_loop ::
  "nat \<Rightarrow> handle list \<Rightarrow> int \<Rightarrow> int \<Rightarrow> int \<Rightarrow> (error + handle list) option" where
  "heapSort_loop 0 vec begin last' end = None"
| "heapSort_loop (Suc k) vec begin last' end =
     (if last' > 0 then
        (case vec_at vec begin of Inl e \<Rightarrow> Some (Inl e) | Inr temp \<Rightarrow>
        (case vec_at vec last' of Inl e \<Rightarrow> Some (Inl e) | Inr vl \<Rightarrow>
        (case vec_sets vec [(begin, vl), (last', temp)] of Inl e \<Rightarrow> Some (Inl e)
         | Inr vec1 \<Rightarrow>
             bindR (siftDown k vec1 begin (end - 1))
               (\<lambda>vec2. heapSort_loop k vec2 begin last' (end - 1)))))
      else Some (Inr vec))"

definition heapSort :: "nat \<Rightarrow> handle list \<Rightarrow> int \<Rightarrow> int \<Rightarrow> (error + handle list) option" where
  "heapSort fuel vec begin end =
     bindR (heapify fuel vec begin end) (\<lambda>vec'. heapSort_loop fuel vec' begin (end - 1) end)"

subsection \<open>\<^verbatim>\<open>introSort\<close> and \<^verbatim>\<open>sort\<close>\<close>

text \<open>Each call of \<open>introSort\<close> takes one unit of fuel; \<open>n\<close> is \<^verbatim>\<open>vec.size()\<close>.\<close>

fun introSort ::
  "nat \<Rightarrow> (handle \<Rightarrow> string) \<Rightarrow> handle list \<Rightarrow> int \<Rightarrow> int \<Rightarrow> int \<Rightarrow> (error + handle list) option" where
  "introSort 0 nm vec maxDepth begin end = None"
| "introSort (Suc k) nm vec maxDepth begin end =
     (let n = int (length vec) in
      if n \<le> 1 then Some (Inr vec)
      else if n = 2 then
        (case vec_at vec 0 of Inl e \<Rightarrow> Some (Inl e) | Inr v0 \<Rightarrow>
        (case vec_at vec 1 of Inl e \<Rightarrow> Some (Inl e) | Inr v1 \<Rightarrow>
         if compare_ci (nm v0) (nm v1) \<ge> 0
         then (case vec_sets vec [(0, v1), (1, v0)] of Inl e \<Rightarrow> Some (Inl e)
               | Inr vec' \<Rightarrow> Some (Inr vec'))
         else Some (Inr vec)))
      else if maxDepth = 0 then heapSort k vec begin end
      else
        (case partition nm vec begin end of Inl e \<Rightarrow> Some (Inl e)
         | Inr (vec1, p) \<Rightarrow>
             bindR (introSort k nm vec1 (maxDepth - 1) begin p)
               (\<lambda>vec2. introSort k nm vec2 (maxDepth - 1) (p + 1) end)))"

text \<open>
  \<^verbatim>\<open>(int) std::floor(std::log2(list.size())) * 2\<close>. The logarithm of a positive
  \<^verbatim>\<open>int\<close> is computed exactly enough for its floor to be the integer logarithm.
  For the empty list the C++ value is undefined (the logarithm is minus
  infinity); \<open>introSort\<close> returns at once there whatever the depth, and the model
  takes 0.
\<close>

fun floor_log2 :: "nat \<Rightarrow> nat" where
  "floor_log2 n = (if n < 2 then 0 else Suc (floor_log2 (n div 2)))"

declare floor_log2.simps [simp del]

definition sort :: "nat \<Rightarrow> (handle \<Rightarrow> string) \<Rightarrow> handle list \<Rightarrow> (error + handle list) option" where
  "sort fuel nm list =
     (let maxDepth = int (floor_log2 (length list)) * 2;
          end = int (length list)
      in introSort fuel nm list maxDepth 0 end)"


text \<open>The two groups that \<open>reorder\<close> forms around the pivot, and the range it scans.\<close>

definition nameLeq :: "(handle \<Rightarrow> string) \<Rightarrow> handle \<Rightarrow> handle \<Rightarrow> bool" where
  "nameLeq nm pivot v = (compare_ci (nm pivot) (nm v) \<ge> 0)"

definition nameGeq :: "(handle \<Rightarrow> string) \<Rightarrow> handle \<Rightarrow> handle \<Rightarrow> bool" where
  "nameGeq nm pivot v = (compare_ci (nm v) (nm pivot) \<ge> 0)"

definition rangeWithoutPivot :: "handle list \<Rightarrow> handle \<Rightarrow> nat \<Rightarrow> nat \<Rightarrow> handle list" where
  "rangeWithoutPivot vec pivot b e = remove1 pivot (take (e - b) (drop b vec))"

subsection \<open>\<^verbatim>\<open>ObjectGroup::moveObjects\<close>\<close>

text \<open>
  \<^verbatim>\<open>QList::mid(pos, length)\<close> clips the requested range to the list;
  \<^verbatim>\<open>QList::erase(first, last)\<close> asserts that both iterators are valid;
  \<^verbatim>\<open>QList::insert(i, v)\<close> prepends for \<open>i \<le> 0\<close> and appends for \<open>i \<ge> size\<close>;
  \<^verbatim>\<open>QList::at(i)\<close> asserts the range, as \<open>vec_at\<close> does.
\<close>

definition qlist_mid :: "'a list \<Rightarrow> int \<Rightarrow> int \<Rightarrow> 'a list" where
  "qlist_mid xs pos len =
     (if pos < 0 then take (nat (pos + len)) xs else take (nat len) (drop (nat pos) xs))"

definition qlist_erase :: "'a list \<Rightarrow> int \<Rightarrow> int \<Rightarrow> error + 'a list" where
  "qlist_erase xs first last' =
     (if 0 \<le> first \<and> first \<le> int (length xs) \<and> 0 \<le> last' \<and> last' \<le> int (length xs)
      then Inr (take (nat first) xs @ drop (nat last') xs) else Inl IndexOutOfRange)"

definition qlist_insert :: "'a list \<Rightarrow> int \<Rightarrow> 'a \<Rightarrow> 'a list" where
  "qlist_insert xs i v =
     (if i \<le> 0 then v # xs
      else if i \<ge> int (length xs) then xs @ [v]
      else take (nat i) xs @ v # drop (nat i) xs)"

function insertMoving :: "'a list \<Rightarrow> 'a list \<Rightarrow> int \<Rightarrow> int \<Rightarrow> int \<Rightarrow> error + 'a list" where
  "insertMoving objs movingObjects to i count' =
     (if i < count' then
        (case vec_at movingObjects i of Inl e \<Rightarrow> Inl e
         | Inr v \<Rightarrow> insertMoving (qlist_insert objs (to + i) v) movingObjects to (i + 1) count')
      else Inr objs)"
  by pat_completeness auto
termination
  by (relation "measure (\<lambda>(objs, moving, to, i, count'). nat (count' - i))") auto

definition moveObjects :: "'a list \<Rightarrow> int \<Rightarrow> int \<Rightarrow> int \<Rightarrow> error + 'a list" where
  "moveObjects objs from to count' =
     (if \<not> count' \<ge> 0 then Inl AssertionFailed
      else if \<not> (to \<le> from \<or> to \<ge> from + count') then Inl AssertionFailed
      else if to = from \<or> to = from + count' \<or> count' = 0 then Inr objs
      else
        (let movingObjects = qlist_mid objs from count' in
         case qlist_erase objs from (from + count') of Inl e \<Rightarrow> Inl e
         | Inr objs1 \<Rightarrow>
             insertMoving objs1 movingObjects (if to > from then to - count' else to) 0 count'))"

subsection \<open>Objects, layers and the store\<close>

text \<open>
  The objects and layers live in a store: an address is an index into the list
  of everything allocated so far, and \<^verbatim>\<open>new\<close> appends. Of a \<open>MapObject\<close> the
  model keeps the name, the id and the back-reference to its group; of a layer,
  the fields that objectgroup.cpp reads or writes.
\<close>

record MapObject =
  mName :: string
  mId :: int
  mObjectGroup :: "nat option"

datatype DrawOrder = UnknownOrder | TopDownOrder | IndexOrder

record ObjectGroup =
  lName :: string
  mX :: int
  mY :: int
  mWidth :: int
  mHeight :: int
  mMap :: "nat option"
  mObjects :: "handle list"
  mColor :: "nat option"
  mDrawOrder :: DrawOrder

datatype layer = ObjectGroupLayer ObjectGroup | OtherLayer

record store =
  objects :: "MapObject list"
  layers :: "layer list"
  nextObjectId :: "int list"

definition object_at :: "store \<Rightarrow> handle \<Rightarrow> error + MapObject" where
  "object_at s h = (if h < length (objects s) then Inr (objects s ! h) else Inl InvalidPointer)"

definition group_at :: "store \<Rightarrow> nat \<Rightarrow> error + ObjectGroup" where
  "group_at s g =
     (if g < length (layers s)
      then (case layers s ! g of ObjectGroupLayer og \<Rightarrow> Inr og | OtherLayer \<Rightarrow> Inl InvalidPointer)
      else Inl InvalidPointer)"

text \<open>The name behind a pointer; the pointers held by a group address live objects.\<close>

definition nameOf :: "store \<Rightarrow> handle \<Rightarrow> string" where
  "nameOf s h = (if h < length (objects s) then mName (objects s ! h) else [])"

text \<open>
  Modelled from the spec: \<^verbatim>\<open>Map::takeNextObjectId\<close> belongs to map.h, which is not
  part of the sources; the spec gives it as the owning document's hook
  \<^verbatim>\<open>requestIdentity() -> integer\<close>. The model hands out the map's counter and
  advances it.
\<close>

definition takeNextObjectId :: "store \<Rightarrow> nat \<Rightarrow> error + (store \<times> int)" where
  "takeNextObjectId s m =
     (if m < length (nextObjectId s)
      then Inr (s\<lparr>nextObjectId := (nextObjectId s)[m := nextObjectId s ! m + 1]\<rparr>,
                nextObjectId s ! m)
      else Inl InvalidPointer)"

text \<open>
  The statements that \<open>addObject\<close> and \<open>insertObject\<close> share:
  \<^verbatim>\<open>object->setObjectGroup(this); if (mMap && object->id() == 0) object->setId(...)\<close>.
\<close>

definition setObjectGroupAndId :: "store \<Rightarrow> nat \<Rightarrow> handle \<Rightarrow> error + store" where
  "setObjectGroupAndId s this object =
     (case group_at s this of Inl e \<Rightarrow> Inl e | Inr og \<Rightarrow>
     (case object_at s object of Inl e \<Rightarrow> Inl e | Inr ob \<Rightarrow>
       (let s1 = s\<lparr>objects := (objects s)[object := ob\<lparr>mObjectGroup := Some this\<rparr>]\<rparr> in
        case mMap og of
          None \<Rightarrow> Inr s1
        | Some m \<Rightarrow>
            if mId ob = 0 then
              (case takeNextObjectId s1 m of Inl e \<Rightarrow> Inl e
               | Inr (s2, newId) \<Rightarrow>
                   Inr (s2\<lparr>objects := (objects s2)[object := (objects s2 ! object)\<lparr>mId := newId\<rparr>]\<rparr>))
            else Inr s1)))"

definition addObject :: "store \<Rightarrow> nat \<Rightarrow> handle \<Rightarrow> error + store" where
  "addObject s this object =
     (case group_at s this of Inl e \<Rightarrow> Inl e | Inr og \<Rightarrow>
        setObjectGroupAndId
          (s\<lparr>layers := (layers s)[this := ObjectGroupLayer (og\<lparr>mObjects := mObjects og @ [object]\<rparr>)]\<rparr>)
          this object)"

definition insertObject :: "nat \<Rightarrow> store \<Rightarrow> nat \<Rightarrow> int \<Rightarrow> handle \<Rightarrow> (error + store) option" where
  "insertObject fuel s this index object =
     (case group_at s this of Inl e \<Rightarrow> Some (Inl e) | Inr og \<Rightarrow>
        bindR (sort fuel (nameOf s) (qlist_insert (mObjects og) index object))
          (\<lambda>sorted.
             Some (setObjectGroupAndId
               (s\<lparr>layers := (layers s)[this := ObjectGroupLayer (og\<lparr>mObjects := sorted\<rparr>)]\<rparr>)
               this object)))"

subsection \<open>\<^verbatim>\<open>canMergeWith\<close>, \<^verbatim>\<open>clone\<close>, \<^verbatim>\<open>mergedWith\<close>\<close>

definition canMergeWith :: "store \<Rightarrow> nat \<Rightarrow> bool" where
  "canMergeWith s other =
     (other < length (layers s) \<and>
      (case layers s ! other of ObjectGroupLayer og \<Rightarrow> True | OtherLayer \<Rightarrow> False))"

text \<open>
  Modelled from the spec: \<^verbatim>\<open>MapObject::clone\<close> belongs to mapobject.h, which is not
  part of the sources; the spec gives it as \<^verbatim>\<open>clone() -> owned Entity\<close>. The model
  allocates a new object with the name of the old one, no id assigned yet and
  no owning group.
\<close>

definition cloneObject :: "store \<Rightarrow> handle \<Rightarrow> error + (store \<times> handle)" where
  "cloneObject s object =
     (case object_at s object of Inl e \<Rightarrow> Inl e
      | Inr ob \<Rightarrow>
          Inr (s\<lparr>objects := objects s @ [\<lparr>mName = mName ob, mId = 0, mObjectGroup = None\<rparr>]\<rparr>,
               length (objects s)))"

text \<open>
  Modelled from the spec: the \<open>Layer\<close> constructor and the member declarations
  belong to layer.h and objectgroup.h, which are not part of the sources; the
  spec creates a collection empty and with no owning document, so a new group
  belongs to no map, and its colour starts out unset. The constructor of this
  file, \<^verbatim>\<open>ObjectGroup(name, x, y, width, height)\<close>, sets the draw order.
\<close>

definition newObjectGroup ::
  "store \<Rightarrow> string \<Rightarrow> int \<Rightarrow> int \<Rightarrow> int \<Rightarrow> int \<Rightarrow> store \<times> nat" where
  "newObjectGroup s name x y width height =
     (s\<lparr>layers := layers s @
          [ObjectGroupLayer \<lparr>lName = name, mX = x, mY = y, mWidth = width, mHeight = height,
             mMap = None, mObjects = [], mColor = None, mDrawOrder = TopDownOrder\<rparr>]\<rparr>,
      length (layers s))"

text \<open>
  The loop \<^verbatim>\<open>foreach (object, list) target->addObject(object->clone());\<close>, which both
  \<open>initializeClone\<close> and \<open>mergedWith\<close> run.
\<close>

fun addClones :: "store \<Rightarrow> nat \<Rightarrow> handle list \<Rightarrow> error + store" where
  "addClones s target [] = Inr s"
| "addClones s target (object # rest) =
     (case cloneObject s object of Inl e \<Rightarrow> Inl e
      | Inr (s1, copy) \<Rightarrow>
         (case addObject s1 target copy of Inl e \<Rightarrow> Inl e
          | Inr s2 \<Rightarrow> addClones s2 target rest))"

text \<open>
  \<open>initializeClone\<close> starts with \<^verbatim>\<open>Layer::initializeClone(clone)\<close>, which is not
  part of the sources and copies layer attributes that the model does not keep
  (the spec's clone takes position and size, which the constructor has set, and
  colour and draw order, which are set below). The rest follows the code.
\<close>

definition initializeClone :: "store \<Rightarrow> nat \<Rightarrow> nat \<Rightarrow> error + (store \<times> nat)" where
  "initializeClone s this clone =
     (case group_at s this of Inl e \<Rightarrow> Inl e | Inr og \<Rightarrow>
     (case addClones s clone (mObjects og) of Inl e \<Rightarrow> Inl e | Inr s1 \<Rightarrow>
     (case group_at s1 clone of Inl e \<Rightarrow> Inl e | Inr cg \<Rightarrow>
     (case group_at s1 this of Inl e \<Rightarrow> Inl e | Inr og1 \<Rightarrow>
        Inr (s1\<lparr>layers := (layers s1)[clone :=
                 ObjectGroupLayer (cg\<lparr>mColor := mColor og1, mDrawOrder := mDrawOrder og1\<rparr>)]\<rparr>,
             clone)))))"

definition clone :: "store \<Rightarrow> nat \<Rightarrow> error + (store \<times> nat)" where
  "clone s this =
     (case group_at s this of Inl e \<Rightarrow> Inl e | Inr og \<Rightarrow>
       (case newObjectGroup s (lName og) (mX og) (mY og) (mWidth og) (mHeight og) of
          (s1, fresh) \<Rightarrow> initializeClone s1 this fresh))"

definition mergedWith :: "store \<Rightarrow> nat \<Rightarrow> nat \<Rightarrow> error + (store \<times> nat)" where
  "mergedWith s this other =
     (if \<not> canMergeWith s other then Inl AssertionFailed
      else
        (case clone s this of Inl e \<Rightarrow> Inl e | Inr (s1, merged) \<Rightarrow>
        (case group_at s1 other of Inl e \<Rightarrow> Inl e | Inr og \<Rightarrow>
        (case addClones s1 merged (mObjects og) of Inl e \<Rightarrow> Inl e
         | Inr s2 \<Rightarrow> Inr (s2, merged)))))"

text \<open>
  A group of the store is valid when it is an object group and each pointer it
  holds addresses an object.
\<close>

definition validGroup :: "store \<Rightarrow> nat \<Rightarrow> bool" where
  "validGroup s g =
     (case group_at s g of Inl e \<Rightarrow> False
      | Inr og \<Rightarrow> list_all (\<lambda>h. h < length (objects s)) (mObjects og))"

text \<open>\<^verbatim>\<open>ObjectGroup::objects()\<close>: the pointers a group holds, in order.\<close>

definition objectsOf :: "store \<Rightarrow> nat \<Rightarrow> handle list" where
  "objectsOf s g = (case group_at s g of Inl e \<Rightarrow> [] | Inr og \<Rightarrow> mObjects og)"

text \<open>
  The object that one round of the cloning loop leaves at a new address: the
  clone of \<open>h\<close>, with the back-reference that \<open>addObject\<close> has set.
\<close>

definition cloned :: "store \<Rightarrow> nat \<Rightarrow> handle \<Rightarrow> MapObject" where
  "cloned s g h = \<lparr>mName = mName (objects s ! h), mId = 0, mObjectGroup = Some g\<rparr>"

text \<open>
  The list in which the \<open>c\<close> elements from index \<open>f\<close> on have been taken out and put
  back, in their order, in front of the element that was at index \<open>t\<close>.
\<close>

definition moved :: "'a list \<Rightarrow> nat \<Rightarrow> nat \<Rightarrow> nat \<Rightarrow> 'a list" where
  "moved objs f t c =
     (if t \<le> f
      then take t objs @ take c (drop f objs) @ drop t (take f objs) @ drop (f + c) objs
      else take f objs @ drop (f + c) (take t objs) @ take c (drop f objs) @ drop t objs)"

subsection \<open>Example data\<close>

text \<open>Seven objects at the addresses 1 to 7, named a, B, c, D, e, F and g.\<close>

definition objName :: "handle \<Rightarrow> string" where
  "objName h =
     (if h = 1 then ''a'' else if h = 2 then ''B'' else if h = 3 then ''c''
      else if h = 4 then ''D'' else if h = 5 then ''e'' else if h = 6 then ''F'' else ''g'')"

text \<open>The same names handed out in the opposite order: address 7 is a, address 1 is g.\<close>

definition revName :: "handle \<Rightarrow> string" where
  "revName h = objName (8 - h)"

text \<open>
  A store with two object groups: group 0 owns the objects 0 and 1, group 1
  owns object 2, and object 3 belongs to no group yet.
\<close>

definition exampleStore :: store where
  "exampleStore =
     \<lparr>objects =
        [\<lparr>mName = ''a'', mId = 1, mObjectGroup = Some 0\<rparr>,
         \<lparr>mName = ''B'', mId = 2, mObjectGroup = Some 0\<rparr>,
         \<lparr>mName = ''c'', mId = 3, mObjectGroup = Some 1\<rparr>,
         \<lparr>mName = ''d'', mId = 0, mObjectGroup = None\<rparr>],
      layers =
        [ObjectGroupLayer \<lparr>lName = ''first'', mX = 0, mY = 0, mWidth = 10, mHeight = 10,
           mMap = None, mObjects = [0, 1], mColor = None, mDrawOrder = TopDownOrder\<rparr>,
         ObjectGroupLayer \<lparr>lName = ''second'', mX = 0, mY = 0, mWidth = 10, mHeight = 10,
           mMap = None, mObjects = [2], mColor = Some 255, mDrawOrder = IndexOrder\<rparr>],
      nextObjectId = []\<rparr>"

declare findPivot.simps [simp del]
declare pushPrefix.simps [simp del]
declare splitRange.simps [simp del]
declare appendSuffix.simps [simp del]
declare insertMoving.simps [simp del]

section \<open>Lemmas\<close>

lemmas eval_defs = vec_at_def vec_set_def vec_remove_def vec_insert_def tdiv_def compare_ci_def
  foldCase_def equals_def objName_def Let_def

lemmas loop_simps = findPivot.simps pushPrefix.simps splitRange.simps appendSuffix.simps

subsection \<open>The loops of \<open>reorder\<close> on a range inside the buffer\<close>

lemma vec_at_nat: "i < length vec \<Longrightarrow> vec_at vec (int i) = Inr (vec ! i)"
  by (simp add: vec_at_def)

lemma findPivot_remove1:
  "i \<le> e \<Longrightarrow> e \<le> length vec \<Longrightarrow> pivot \<in> set (take (e - i) (drop i vec)) \<Longrightarrow>
   findPivot vec pivot (int i) (int e) = Inr (take i vec @ remove1 pivot (drop i vec), int e - 1)"
proof (induction "e - i" arbitrary: i)
  case 0
  then show ?case by simp
next
  case (Suc k)
  then have lt: "i < e" and len: "i < length vec" by auto
  have dr: "drop i vec = vec ! i # drop (Suc i) vec"
    using len by (simp add: Cons_nth_drop_Suc)
  show ?case
  proof (cases "vec ! i = pivot")
    case True
    then show ?thesis
      using lt len dr
      by (subst findPivot.simps) (simp add: vec_at_nat equals_def vec_remove_def)
  next
    case False
    have k: "k = e - Suc i" using Suc.hyps by simp
    have mem: "pivot \<in> set (take (e - Suc i) (drop (Suc i) vec))"
    proof -
      have "e - i = Suc (e - Suc i)" using lt by simp
      then have "take (e - i) (drop i vec) = vec ! i # take (e - Suc i) (drop (Suc i) vec)"
        using dr by simp
      with Suc.prems(3) False show ?thesis by auto
    qed
    have ih: "findPivot vec pivot (int i + 1) (int e) =
        Inr (take (Suc i) vec @ remove1 pivot (drop (Suc i) vec), int e - 1)"
      using Suc.hyps(1)[OF k _ Suc.prems(2) mem] lt by (simp add: add.commute)
    show ?thesis
      using lt len dr False ih
      by (subst findPivot.simps) (simp add: vec_at_nat equals_def take_Suc_conv_app_nth)
  qed
qed

lemma pushPrefix_rev:
  "i \<le> b \<Longrightarrow> b \<le> length vec \<Longrightarrow>
   pushPrefix acc vec (int i) (int b) = Inr (rev (drop i (take b vec)) @ acc)"
proof (induction "b - i" arbitrary: i acc)
  case 0
  then show ?case by (subst pushPrefix.simps) simp
next
  case (Suc k)
  then have lt: "i < b" and len: "i < length vec" by auto
  have dr: "drop i (take b vec) = vec ! i # drop (Suc i) (take b vec)"
    using lt len by (metis Cons_nth_drop_Suc length_take min.absorb2 nth_take Suc.prems(2))
  have ih: "pushPrefix (vec ! i # acc) vec (int i + 1) (int b) =
      Inr (rev (drop (Suc i) (take b vec)) @ vec ! i # acc)"
    using Suc.hyps(1)[of "Suc i" "vec ! i # acc"] Suc.hyps(2) lt Suc.prems(2)
    by (simp add: add.commute)
  show ?case
    using lt len ih dr by (subst pushPrefix.simps) (simp add: vec_at_nat)
qed

lemma appendSuffix_drop:
  "i \<le> length vec \<Longrightarrow> appendSuffix acc vec (int i) = Inr (acc @ drop i vec)"
proof (induction "length vec - i" arbitrary: i acc)
  case 0
  then show ?case by (subst appendSuffix.simps) simp
next
  case (Suc k)
  then have len: "i < length vec" by auto
  have ih: "appendSuffix (acc @ [vec ! i]) vec (int i + 1) = Inr ((acc @ [vec ! i]) @ drop (Suc i) vec)"
    using Suc.hyps(1)[of "Suc i" "acc @ [vec ! i]"] Suc.hyps(2) len by (simp add: add.commute)
  show ?case
    using len ih by (subst appendSuffix.simps) (simp add: vec_at_nat Cons_nth_drop_Suc)
qed

lemma splitRange_filter:
  "length P = b \<Longrightarrow> i \<le> e \<Longrightarrow> e \<le> length vec \<Longrightarrow>
   splitRange nm c (P @ M) p vec (int i) (int b) (int e) =
     Inr (P @ rev (filter (\<lambda>v. compare_ci c (nm v) \<ge> 0) (drop i (take e vec))) @ M
            @ filter (\<lambda>v. \<not> compare_ci c (nm v) \<ge> 0) (drop i (take e vec)),
          p + int (length (filter (\<lambda>v. compare_ci c (nm v) \<ge> 0) (drop i (take e vec)))))"
proof (induction "e - i" arbitrary: i M p)
  case 0
  then show ?case by (subst splitRange.simps) simp
next
  case (Suc k)
  then have lt: "i < e" and len: "i < length vec" by auto
  have dr: "drop i (take e vec) = vec ! i # drop (Suc i) (take e vec)"
    using lt len by (metis Cons_nth_drop_Suc length_take min.absorb2 nth_take Suc.prems(3))
  have k: "k = e - Suc i" using Suc.hyps(2) by simp
  have le: "Suc i \<le> e" using lt by simp
  have ih: "splitRange nm c (P @ M') p' vec (int i + 1) (int b) (int e) =
     Inr (P @ rev (filter (\<lambda>v. compare_ci c (nm v) \<ge> 0) (drop (Suc i) (take e vec))) @ M'
            @ filter (\<lambda>v. \<not> compare_ci c (nm v) \<ge> 0) (drop (Suc i) (take e vec)),
          p' + int (length (filter (\<lambda>v. compare_ci c (nm v) \<ge> 0) (drop (Suc i) (take e vec)))))"
    for M' p'
    using Suc.hyps(1)[OF k Suc.prems(1) le Suc.prems(3), of M' p'] by (simp add: add.commute)
  show ?case
  proof (cases "compare_ci c (nm (vec ! i)) \<ge> 0")
    case True
    have ins: "vec_insert (P @ M) (int b) (vec ! i) = Inr (P @ (vec ! i # M))"
      using Suc.prems(1) by (simp add: vec_insert_def)
    show ?thesis
      using lt len True ins ih[of "vec ! i # M" "p + 1"] dr
      by (subst splitRange.simps) (simp add: vec_at_nat)
  next
    case False
    show ?thesis
      using lt len False ih[of "M @ [vec ! i]" p] dr
      by (subst splitRange.simps) (simp add: vec_at_nat)
  qed
qed


lemma take_remove1:
  "x \<in> set (take n xs) \<Longrightarrow> take (n - 1) (remove1 x xs) = remove1 x (take n xs)"
proof (induction xs arbitrary: n)
  case Nil
  then show ?case by simp
next
  case (Cons a xs)
  then obtain m where n: "n = Suc m" by (cases n) auto
  show ?case
  proof (cases "x = a")
    case True
    then show ?thesis using n by simp
  next
    case False
    with Cons.prems n have mem: "x \<in> set (take m xs)" by simp
    then obtain m' where m: "m = Suc m'" by (cases m) auto
    from Cons.IH[OF mem] show ?thesis using n m False by simp
  qed
qed

lemma drop_remove1:
  "x \<in> set (take n xs) \<Longrightarrow> drop (n - 1) (remove1 x xs) = drop n xs"
proof (induction xs arbitrary: n)
  case Nil
  then show ?case by simp
next
  case (Cons a xs)
  then obtain m where n: "n = Suc m" by (cases n) auto
  show ?case
  proof (cases "x = a")
    case True
    then show ?thesis using n by simp
  next
    case False
    with Cons.prems n have mem: "x \<in> set (take m xs)" by simp
    then obtain m' where m: "m = Suc m'" by (cases m) auto
    from Cons.IH[OF mem] show ?thesis using n m False by simp
  qed
qed

lemma reorder_result:
  assumes be: "b \<le> e" and el: "e \<le> length vec"
    and mem: "pivot \<in> set (take (e - b) (drop b vec))"
  shows "reorder nm vec pivot (int b) (int e) =
     Inr (rev (take b vec)
            @ rev (filter (nameLeq nm pivot) (rangeWithoutPivot vec pivot b e))
            @ [pivot]
            @ filter (\<lambda>v. \<not> nameLeq nm pivot v) (rangeWithoutPivot vec pivot b e)
            @ drop e vec,
          int b + int (length (filter (nameLeq nm pivot) (rangeWithoutPivot vec pivot b e))))"
proof -
  define vec1 where "vec1 = take b vec @ remove1 pivot (drop b vec)"
  define e' where "e' = e - 1"
  have epos: "b < e" using mem be by (cases "e - b") auto
  have memd: "pivot \<in> set (drop b vec)" using mem by (meson in_set_takeD)
  have len1: "length vec1 = length vec - 1"
    using memd be el epos by (simp add: vec1_def length_remove1)
  have fp: "findPivot vec pivot (int b) (int e) = Inr (vec1, int e')"
    using findPivot_remove1[OF be el mem] epos by (simp add: vec1_def e'_def)
  have tk: "take b vec1 = take b vec"
    using be el by (simp add: vec1_def)
  have bl1: "b \<le> length vec1" using len1 epos el by simp
  have pp: "pushPrefix [pivot] vec1 0 (int b) = Inr (rev (take b vec) @ [pivot])"
    using pushPrefix_rev[of 0 b vec1 "[pivot]"] bl1 tk by simp
  have e1: "e' \<le> length vec1" using len1 el by (simp add: e'_def)
  have be': "b \<le> e'" using epos by (simp add: e'_def)
  have rng: "drop b (take e' vec1) = rangeWithoutPivot vec pivot b e"
  proof -
    have "drop b (take e' vec1) = take (e - 1 - b) (drop b vec1)"
      by (simp add: drop_take e'_def)
    also have "drop b vec1 = remove1 pivot (drop b vec)"
      using be el by (simp add: vec1_def)
    also have "take (e - 1 - b) (remove1 pivot (drop b vec)) = remove1 pivot (take (e - b) (drop b vec))"
      using take_remove1[OF mem] by simp
    finally show ?thesis by (simp add: rangeWithoutPivot_def)
  qed
  have sr: "splitRange nm (nm pivot) (rev (take b vec) @ [pivot]) (int b) vec1 (int b) (int b) (int e') =
     Inr (rev (take b vec)
            @ rev (filter (nameLeq nm pivot) (rangeWithoutPivot vec pivot b e))
            @ [pivot]
            @ filter (\<lambda>v. \<not> nameLeq nm pivot v) (rangeWithoutPivot vec pivot b e),
          int b + int (length (filter (nameLeq nm pivot) (rangeWithoutPivot vec pivot b e))))"
    using splitRange_filter[of "rev (take b vec)" b b e' vec1 nm "nm pivot" "[pivot]" "int b"]
      e1 be' el be rng
    by (simp add: nameLeq_def[abs_def])
  have sfx: "drop e' vec1 = drop e vec"
  proof -
    have "drop e' vec1 = drop (e - 1 - b) (remove1 pivot (drop b vec))"
      using be el epos by (simp add: vec1_def e'_def)
    also have "\<dots> = drop (e - b) (drop b vec)"
      using drop_remove1[OF mem] by simp
    finally show ?thesis using be by simp
  qed
  have ap: "appendSuffix acc vec1 (int e') = Inr (acc @ drop e vec)" for acc
    using appendSuffix_drop[OF e1, of acc] sfx by simp
  show ?thesis
    unfolding reorder_def by (simp add: fp pp sr ap)
qed


subsection \<open>Lengths, and the calls that cannot return\<close>

lemma bindR_Inr:
  "bindR m f = Some (Inr r) \<longleftrightarrow> (\<exists>v. m = Some (Inr v) \<and> f v = Some (Inr r))"
  by (cases "(m, f)" rule: bindR.cases) auto

lemma vec_set_length: "vec_set vec i v = Inr vec' \<Longrightarrow> length vec' = length vec"
  by (auto simp: vec_set_def split: if_splits)

lemma vec_sets_length: "vec_sets vec ws = Inr vec' \<Longrightarrow> length vec' = length vec"
proof (induction ws arbitrary: vec)
  case Nil
  then show ?case by simp
next
  case (Cons w ws)
  obtain i v where w: "w = (i, v)" by (cases w)
  from Cons.prems obtain vec1 where s: "vec_set vec i v = Inr vec1" and r: "vec_sets vec1 ws = Inr vec'"
    by (auto simp: w split: sum.splits)
  from Cons.IH[OF r] vec_set_length[OF s] show ?case by simp
qed

lemma siftDown_loop_same:
  "siftDown_loop fuel vec root siftEnd = Some (Inr vec') \<Longrightarrow> vec' = vec"
proof (induction fuel)
  case 0
  then show ?case by simp
next
  case (Suc k)
  then show ?case
    by (auto simp: Let_def split: if_splits sum.splits bool.splits)
qed

lemma heapify_loop_same:
  "heapify_loop fuel vec start begin end = Some (Inr vec') \<Longrightarrow> vec' = vec"
proof (induction fuel arbitrary: start)
  case 0
  then show ?case by simp
next
  case (Suc k)
  show ?case
  proof (cases "start \<ge> begin")
    case True
    with Suc.prems obtain v where s: "siftDown k vec begin (end - 1) = Some (Inr v)"
      and h: "heapify_loop k v (start - 1) begin end = Some (Inr vec')"
      by (auto simp: bindR_Inr)
    from s have "v = vec" by (simp add: siftDown_def siftDown_loop_same)
    with h Suc.IH show ?thesis by simp
  next
    case False
    with Suc.prems show ?thesis by simp
  qed
qed

lemma heapSort_loop_never:
  "0 < last' \<Longrightarrow> heapSort_loop fuel vec begin last' end \<noteq> Some (Inr r)"
proof (induction fuel arbitrary: vec "end")
  case 0
  then show ?case by simp
next
  case (Suc k)
  show ?case
  proof
    assume a: "heapSort_loop (Suc k) vec begin last' end = Some (Inr r)"
    with Suc.prems obtain vec2 where
      "heapSort_loop k vec2 begin last' (end - 1) = Some (Inr r)"
      by (auto simp: bindR_Inr split: sum.splits)
    with Suc.IH[OF Suc.prems] show False by blast
  qed
qed

lemma heapSort_loop_same:
  "heapSort_loop fuel vec begin last' end = Some (Inr r) \<Longrightarrow> r = vec"
proof (cases "0 < last'")
  case True
  assume "heapSort_loop fuel vec begin last' end = Some (Inr r)"
  with heapSort_loop_never[OF True] show ?thesis by blast
next
  case False
  assume "heapSort_loop fuel vec begin last' end = Some (Inr r)"
  with False show ?thesis by (cases fuel) auto
qed

lemma heapSort_never:
  "2 \<le> end \<Longrightarrow> heapSort fuel vec begin end \<noteq> Some (Inr r)"
  using heapSort_loop_never[of "end - 1"] by (auto simp: heapSort_def bindR_Inr)

lemma heapSort_same:
  "heapSort fuel vec begin end = Some (Inr r) \<Longrightarrow> r = vec"
  by (auto simp: heapSort_def heapify_def bindR_Inr dest!: heapify_loop_same heapSort_loop_same)

lemma findPivot_length:
  "findPivot vec pivot i e = Inr (vec1, e1) \<Longrightarrow> length vec \<le> Suc (length vec1)"
proof (induction vec pivot i e rule: findPivot.induct)
  case (1 vec pivot i e)
  show ?case
  proof (cases "i < e")
    case True
    from "1.prems" True obtain v where v: "vec_at vec i = Inr v"
      by (subst (asm) findPivot.simps) (auto split: sum.splits)
    show ?thesis
    proof (cases "equals v pivot")
      case eq: True
      from "1.prems" True v eq have "vec1 = vec_remove vec i"
        by (subst (asm) findPivot.simps) simp
      moreover from v have "0 \<le> i \<and> i < int (length vec)"
        by (auto simp: vec_at_def split: if_splits)
      ultimately show ?thesis by (simp add: vec_remove_def)
    next
      case ne: False
      from "1.prems" True v ne have "findPivot vec pivot (i + 1) e = Inr (vec1, e1)"
        by (subst (asm) findPivot.simps) simp
      from "1.IH"[OF True v ne this] show ?thesis .
    qed
  next
    case False
    with "1.prems" show ?thesis by (subst (asm) findPivot.simps) simp
  qed
qed

lemma pushPrefix_length:
  "pushPrefix acc vec i b = Inr r \<Longrightarrow> length r = length acc + nat (b - i)"
proof (induction acc vec i b arbitrary: r rule: pushPrefix.induct)
  case (1 acc vec i b)
  show ?case
  proof (cases "i < b")
    case True
    from "1.prems" True obtain v where v: "vec_at vec i = Inr v"
      and r: "pushPrefix (v # acc) vec (i + 1) b = Inr r"
      by (subst (asm) pushPrefix.simps) (auto split: sum.splits)
    from "1.IH"[OF True v r] True show ?thesis by simp
  next
    case False
    with "1.prems" show ?thesis by (subst (asm) pushPrefix.simps) simp
  qed
qed

lemma splitRange_length:
  "splitRange nm c acc p vec i b e = Inr (r, p') \<Longrightarrow> length r = length acc + nat (e - i)"
proof (induction nm c acc p vec i b e arbitrary: r p' rule: splitRange.induct)
  case (1 nm c acc p vec i b e)
  show ?case
  proof (cases "i < e")
    case True
    from "1.prems" True obtain v where v: "vec_at vec i = Inr v"
      by (subst (asm) splitRange.simps) (auto split: sum.splits)
    show ?thesis
    proof (cases "compare_ci c (nm v) \<ge> 0")
      case le: True
      from "1.prems" True v le obtain acc' where
        ins: "vec_insert acc b v = Inr acc'" and
        r: "splitRange nm c acc' (p + 1) vec (i + 1) b e = Inr (r, p')"
        by (subst (asm) splitRange.simps) (auto split: sum.splits)
      from ins have "length acc' = Suc (length acc)"
        by (auto simp: vec_insert_def split: if_splits)
      with "1.IH"(1)[OF True v le ins r] True show ?thesis by simp
    next
      case gt: False
      from "1.prems" True v gt have
        r: "splitRange nm c (acc @ [v]) p vec (i + 1) b e = Inr (r, p')"
        by (subst (asm) splitRange.simps) simp
      from "1.IH"(2)[OF True v gt r] True show ?thesis by simp
    qed
  next
    case False
    with "1.prems" show ?thesis by (subst (asm) splitRange.simps) simp
  qed
qed

lemma appendSuffix_length:
  "appendSuffix acc vec i = Inr r \<Longrightarrow> length r = length acc + nat (int (length vec) - i)"
proof (induction acc vec i arbitrary: r rule: appendSuffix.induct)
  case (1 acc vec i)
  show ?case
  proof (cases "i < int (length vec)")
    case True
    from "1.prems" True obtain v where v: "vec_at vec i = Inr v"
      and r: "appendSuffix (acc @ [v]) vec (i + 1) = Inr r"
      by (subst (asm) appendSuffix.simps) (auto split: sum.splits)
    from "1.IH"[OF True v r] True show ?thesis by simp
  next
    case False
    with "1.prems" show ?thesis by (subst (asm) appendSuffix.simps) simp
  qed
qed

lemma reorder_length:
  assumes "reorder nm vec pivot begin end = Inr (vec', p)"
  shows "length vec \<le> length vec'"
proof -
  from assms obtain vec1 end1 newVec1 newVec2 where
    fp: "findPivot vec pivot begin end = Inr (vec1, end1)" and
    pp: "pushPrefix [pivot] vec1 0 begin = Inr newVec1" and
    sr: "splitRange nm (nm pivot) newVec1 begin vec1 begin begin end1 = Inr (newVec2, p)" and
    ap: "appendSuffix newVec2 vec1 end1 = Inr vec'"
    by (auto simp: reorder_def split: sum.splits prod.splits)
  from findPivot_length[OF fp] pushPrefix_length[OF pp] splitRange_length[OF sr]
    appendSuffix_length[OF ap]
  show ?thesis by simp
qed

lemma partition_pivot_length:
  "partition_pivot nm vec begin end = Inr (vec', pivot) \<Longrightarrow> length vec' = length vec"
  by (auto simp: partition_pivot_def Let_def simp del: vec_sets.simps
      split: sum.splits if_splits dest: vec_sets_length)

lemma partition_length:
  "partition nm vec begin end = Inr (vec', p) \<Longrightarrow> length vec \<le> length vec'"
  by (auto simp: partition_def split: sum.splits prod.splits
      dest!: partition_pivot_length reorder_length)

lemma introSort_length:
  "introSort fuel nm vec maxDepth begin end = Some (Inr vec') \<Longrightarrow> length vec \<le> length vec'"
proof (induction fuel arbitrary: vec maxDepth "begin" "end" vec')
  case 0
  then show ?case by simp
next
  case (Suc k)
  consider (small) "length vec \<le> 1" | (two) "length vec = 2"
    | (heap) "2 < length vec" "maxDepth = 0" | (rec) "2 < length vec" "maxDepth \<noteq> 0"
    by linarith
  then show ?case
  proof cases
    case small
    with Suc.prems show ?thesis by (auto simp: Let_def)
  next
    case two
    with Suc.prems show ?thesis
      by (auto simp: Let_def simp del: vec_sets.simps split: sum.splits if_splits
          dest: vec_sets_length)
  next
    case heap
    with Suc.prems have "heapSort k vec begin end = Some (Inr vec')" by (simp add: Let_def)
    then show ?thesis by (auto dest: heapSort_same)
  next
    case rec
    with Suc.prems obtain vec1 p vec2 where
      pt: "partition nm vec begin end = Inr (vec1, p)" and
      l: "introSort k nm vec1 (maxDepth - 1) begin p = Some (Inr vec2)" and
      r: "introSort k nm vec2 (maxDepth - 1) (p + 1) end = Some (Inr vec')"
      by (auto simp: Let_def bindR_Inr split: sum.splits prod.splits)
    from partition_length[OF pt] Suc.IH[OF l] Suc.IH[OF r] show ?thesis by simp
  qed
qed

lemma introSort_never:
  "3 \<le> length vec \<Longrightarrow> 2 \<le> end \<Longrightarrow>
   introSort fuel nm vec maxDepth begin end \<noteq> Some (Inr vec')"
proof (induction fuel arbitrary: vec maxDepth "begin" vec')
  case 0
  then show ?case by simp
next
  case (Suc k)
  show ?case
  proof (cases "maxDepth = 0")
    case True
    with Suc.prems heapSort_never[of "end" k vec "begin" vec'] show ?thesis
      by (simp add: Let_def)
  next
    case False
    show ?thesis
    proof
      assume a: "introSort (Suc k) nm vec maxDepth begin end = Some (Inr vec')"
      with False Suc.prems obtain vec1 p vec2 where
        pt: "partition nm vec begin end = Inr (vec1, p)" and
        l: "introSort k nm vec1 (maxDepth - 1) begin p = Some (Inr vec2)" and
        r: "introSort k nm vec2 (maxDepth - 1) (p + 1) end = Some (Inr vec')"
        by (auto simp: Let_def bindR_Inr split: sum.splits prod.splits)
      have "3 \<le> length vec2"
        using partition_length[OF pt] introSort_length[OF l] Suc.prems(1) by simp
      from Suc.IH[OF this Suc.prems(2)] r show False by blast
    qed
  qed
qed

lemma sort_never:
  "3 \<le> length list \<Longrightarrow> sort fuel nm list \<noteq> Some (Inr r)"
  using introSort_never[of list "int (length list)"] by (simp add: sort_def Let_def)



subsection \<open>Moving a block of a list\<close>

lemma qlist_insert_nat: "qlist_insert xs (int n) v = take n xs @ v # drop n xs"
  by (simp add: qlist_insert_def)

lemma insertMoving_result:
  "length pre = d \<Longrightarrow> i \<le> length moving \<Longrightarrow>
   insertMoving (pre @ take i moving @ post) moving (int d) (int i) (int (length moving))
     = Inr (pre @ moving @ post)"
proof (induction "length moving - i" arbitrary: i)
  case 0
  then show ?case by (subst insertMoving.simps) simp
next
  case (Suc k)
  then have lt: "i < length moving" by simp
  have ins: "qlist_insert (pre @ take i moving @ post) (int d + int i) (moving ! i)
      = pre @ take (Suc i) moving @ post"
    using qlist_insert_nat[of "pre @ take i moving @ post" "d + i" "moving ! i"] Suc.prems lt
    by (simp add: take_Suc_conv_app_nth)
  have ih: "insertMoving (pre @ take (Suc i) moving @ post) moving (int d) (int i + 1)
      (int (length moving)) = Inr (pre @ moving @ post)"
    using Suc.hyps(1)[of "Suc i"] Suc.hyps(2) Suc.prems(1) lt by (simp add: add.commute)
  show ?case
    using lt ins ih by (subst insertMoving.simps) (simp add: vec_at_nat)
qed

lemma split3: "take f xs @ take c (drop f xs) @ drop (f + c) xs = xs"
proof -
  have "drop (f + c) xs = drop c (drop f xs)" by (simp add: add.commute)
  then show ?thesis by (simp only: append_take_drop_id)
qed

lemma take_drop_take: "t \<le> f \<Longrightarrow> take t xs @ drop t (take f xs) = take f xs"
proof -
  assume "t \<le> f"
  then have "take t xs = take t (take f xs)" by (simp add: min_def)
  then show ?thesis by (simp only: append_take_drop_id)
qed

lemma moved_noop:
  assumes "t = f \<or> t = f + c \<or> c = 0"
  shows "moved objs f t c = objs"
proof -
  consider "t = f" | "t = f + c" "c \<noteq> 0" | "c = 0" "t \<le> f" | "c = 0" "f < t"
    using assms by fastforce
  then show ?thesis
  proof cases
    case 1
    then show ?thesis using split3[of f objs c] by (simp add: moved_def)
  next
    case 2
    then show ?thesis using split3[of f objs c] by (simp add: moved_def)
  next
    case 3
    have "take t objs @ drop t (take f objs) @ drop f objs
        = (take t objs @ drop t (take f objs)) @ drop f objs" by simp
    also have "\<dots> = take f objs @ drop f objs"
      using take_drop_take[OF 3(2), of objs] by (simp only:)
    finally show ?thesis using 3 by (simp add: moved_def)
  next
    case 4
    then have le: "f \<le> t" by simp
    have "take f objs @ drop f (take t objs) @ drop t objs
        = (take f objs @ drop f (take t objs)) @ drop t objs" by simp
    also have "\<dots> = take t objs @ drop t objs"
      using take_drop_take[OF le, of objs] by (simp only:)
    finally show ?thesis using 4 by (simp add: moved_def)
  qed
qed

lemma insertMoving_append:
  "length objs0 \<le> d \<Longrightarrow> i \<le> length moving \<Longrightarrow>
   insertMoving (objs0 @ take i moving) moving (int d) (int i) (int (length moving))
     = Inr (objs0 @ moving)"
proof (induction "length moving - i" arbitrary: i)
  case 0
  then show ?case by (subst insertMoving.simps) simp
next
  case (Suc k)
  then have lt: "i < length moving" by simp
  have ins: "qlist_insert (objs0 @ take i moving) (int d + int i) (moving ! i)
      = objs0 @ take (Suc i) moving"
    using qlist_insert_nat[of "objs0 @ take i moving" "d + i" "moving ! i"] Suc.prems lt
    by (simp add: take_Suc_conv_app_nth)
  have ih: "insertMoving (objs0 @ take (Suc i) moving) moving (int d) (int i + 1)
      (int (length moving)) = Inr (objs0 @ moving)"
    using Suc.hyps(1)[of "Suc i"] Suc.hyps(2) Suc.prems(1) lt by (simp add: add.commute)
  show ?case
    using lt ins ih by (subst insertMoving.simps) (simp add: vec_at_nat)
qed

lemma moveObjects_nat:
  assumes ov: "t \<le> f \<or> f + c \<le> t" and fc: "f + c \<le> length objs"
  shows "moveObjects objs (int f) (int t) (int c) = Inr (moved objs f t c)"
proof (cases "t = f \<or> t = f + c \<or> c = 0")
  case True
  with moved_noop[OF True, of objs] ov show ?thesis by (auto simp: moveObjects_def)
next
  case False
  define block where "block = take c (drop f objs)"
  define rest where "rest = take f objs @ drop (f + c) objs"
  define d where "d = (if f < t then t - c else t)"
  have lb: "length block = c" using fc by (simp add: block_def)
  have lr: "length rest = length objs - c" using fc by (simp add: rest_def)
  have mid: "qlist_mid objs (int f) (int c) = block"
    by (simp add: qlist_mid_def block_def)
  have er: "qlist_erase objs (int f) (int f + int c) = Inr rest"
    using fc by (simp add: qlist_erase_def rest_def nat_add_distrib)
  have im: "insertMoving rest block (int d) 0 (int c) = Inr (moved objs f t c)"
  proof (cases "d \<le> length rest")
    case dl: True
    have im0: "insertMoving rest block (int d) 0 (int c) = Inr (take d rest @ block @ drop d rest)"
      using insertMoving_result[of "take d rest" d 0 block "drop d rest"] dl lb by simp
    have "take d rest @ block @ drop d rest = moved objs f t c"
    proof (cases "t \<le> f")
      case True
      then have "d = t" using False by (simp add: d_def)
      then show ?thesis using True fc by (simp add: moved_def rest_def block_def)
    next
      case gt: False
      then have tc: "f + c \<le> t" and d: "d = t - c" using ov by (auto simp: d_def)
      have tl: "t \<le> length objs" using dl lr d tc fc by simp
      have "take d rest = take f objs @ drop (f + c) (take t objs)"
        using tc fc d by (simp add: rest_def drop_take add.commute)
      moreover have "drop d rest = drop t objs"
        using tc fc tl d by (simp add: rest_def)
      ultimately show ?thesis using gt by (simp add: moved_def block_def)
    qed
    with im0 show ?thesis by simp
  next
    case far: False
    have ft: "f < t"
    proof (rule ccontr)
      assume "\<not> f < t"
      then have "d = t" "t \<le> f" by (simp_all add: d_def)
      with fc lr far show False by simp
    qed
    then have d: "d = t - c" and tc: "f + c \<le> t" using ov by (auto simp: d_def)
    have tl: "length objs \<le> t" using far lr d tc fc by simp
    have im0: "insertMoving rest block (int d) 0 (int c) = Inr (rest @ block)"
      using insertMoving_append[of rest d 0 block] far lb by simp
    have "moved objs f t c = rest @ block"
      using ft tl by (simp add: moved_def rest_def block_def)
    with im0 show ?thesis by simp
  qed
  have im1: "t \<le> f \<Longrightarrow> insertMoving rest block (int t) 0 (int c) = Inr (moved objs f t c)"
    using im False by (simp add: d_def)
  have im2: "f < t \<Longrightarrow>
      insertMoving rest block (int t - int c) 0 (int c) = Inr (moved objs f t c)"
    using im False ov by (simp add: d_def of_nat_diff)
  have ov': "t \<le> f \<or> int f + int c \<le> int t" using ov by linarith
  show ?thesis
    using False ov' im1 im2 by (simp add: moveObjects_def Let_def mid er)
qed


subsection \<open>Cloning into a group outside any map\<close>

lemma group_at_layers:
  "group_at s g = Inr og \<longleftrightarrow> g < length (layers s) \<and> layers s ! g = ObjectGroupLayer og"
  by (auto simp: group_at_def split: layer.splits)

lemma addObject_unmapped:
  assumes g: "group_at s g = Inr og" and m: "mMap og = None" and h: "h < length (objects s)"
  shows "addObject s g h =
     Inr (s\<lparr>layers := (layers s)[g := ObjectGroupLayer (og\<lparr>mObjects := mObjects og @ [h]\<rparr>)],
            objects := (objects s)[h := (objects s ! h)\<lparr>mObjectGroup := Some g\<rparr>]\<rparr>)"
proof -
  from g have gl: "g < length (layers s)" by (simp add: group_at_layers)
  let ?s1 = "s\<lparr>layers := (layers s)[g := ObjectGroupLayer (og\<lparr>mObjects := mObjects og @ [h]\<rparr>)]\<rparr>"
  have g1: "group_at ?s1 g = Inr (og\<lparr>mObjects := mObjects og @ [h]\<rparr>)"
    using gl by (simp add: group_at_layers)
  have "setObjectGroupAndId ?s1 g h =
      Inr (?s1\<lparr>objects := (objects s)[h := (objects s ! h)\<lparr>mObjectGroup := Some g\<rparr>]\<rparr>)"
    using m h by (simp add: setObjectGroupAndId_def g1 object_at_def Let_def)
  then show ?thesis by (simp add: addObject_def g)
qed

lemma addClones_unmapped:
  assumes "group_at s g = Inr og" and "mMap og = None"
    and "list_all (\<lambda>h. h < length (objects s)) hs"
  shows "addClones s g hs =
     Inr (s\<lparr>layers := (layers s)[g := ObjectGroupLayer
                (og\<lparr>mObjects := mObjects og @ [length (objects s) ..< length (objects s) + length hs]\<rparr>)],
            objects := objects s @ map (cloned s g) hs\<rparr>)"
  using assms
proof (induction hs arbitrary: s og)
  case Nil
  then have "(layers s)[g := ObjectGroupLayer og] = layers s"
    by (simp add: group_at_layers) (metis list_update_id)
  then show ?case by simp
next
  case (Cons h hs)
  let ?n = "length (objects s)"
  let ?s1 = "s\<lparr>objects := objects s @ [\<lparr>mName = mName (objects s ! h), mId = 0, mObjectGroup = None\<rparr>]\<rparr>"
  let ?og2 = "og\<lparr>mObjects := mObjects og @ [?n]\<rparr>"
  let ?s2 = "s\<lparr>layers := (layers s)[g := ObjectGroupLayer ?og2],
               objects := objects s @ [cloned s g h]\<rparr>"
  have hv: "h < ?n" and hsv: "list_all (\<lambda>h. h < ?n) hs" using Cons.prems(3) by simp_all
  have c: "cloneObject s h = Inr (?s1, ?n)"
    using hv by (simp add: cloneObject_def object_at_def)
  have g1: "group_at ?s1 g = Inr og" using Cons.prems(1) by (simp add: group_at_layers)
  have a: "addObject ?s1 g ?n = Inr ?s2"
    using addObject_unmapped[OF g1 Cons.prems(2), of ?n] by (simp add: cloned_def)
  have g2: "group_at ?s2 g = Inr ?og2" using Cons.prems(1) by (simp add: group_at_layers)
  have m2: "mMap ?og2 = None" using Cons.prems(2) by simp
  have v2: "list_all (\<lambda>h. h < length (objects ?s2)) hs"
    using hsv by (simp add: list_all_iff) (meson less_SucI)
  have cl: "map (cloned ?s2 g) hs = map (cloned s g) hs"
    using hsv by (auto simp: cloned_def list_all_iff nth_append)
  have up: "[?n ..< ?n + length (h # hs)] = ?n # [Suc ?n ..< Suc ?n + length hs]"
    by (subst upt_rec) simp
  show ?case
    using Cons.IH[OF g2 m2 v2] c a cl up by simp
qed


lemma addClones_props:
  assumes "group_at s g = Inr og" and "mMap og = None"
    and "list_all (\<lambda>h. h < length (objects s)) hs"
  shows "\<exists>s'. addClones s g hs = Inr s'
    \<and> layers s' = (layers s)[g := ObjectGroupLayer
          (og\<lparr>mObjects := mObjects og @ [length (objects s) ..< length (objects s) + length hs]\<rparr>)]
    \<and> objects s' = objects s @ map (cloned s g) hs
    \<and> nextObjectId s' = nextObjectId s"
  using addClones_unmapped[OF assms] by simp

lemma mergedWith_result:
  assumes a: "group_at s this = Inr A" and b: "group_at s other = Inr B"
    and va: "list_all (\<lambda>h. h < length (objects s)) (mObjects A)"
    and vb: "list_all (\<lambda>h. h < length (objects s)) (mObjects B)"
  shows "\<exists>s' mg. mergedWith s this other = Inr (s', length (layers s))
    \<and> layers s' = layers s @ [ObjectGroupLayer mg]
    \<and> objects s' = objects s @ map (cloned s (length (layers s))) (mObjects A @ mObjects B)
    \<and> nextObjectId s' = nextObjectId s
    \<and> mObjects mg = [length (objects s) ..<
          length (objects s) + length (mObjects A) + length (mObjects B)]
    \<and> mColor mg = mColor A \<and> mDrawOrder mg = mDrawOrder A \<and> mMap mg = None"
proof -
  let ?L = "length (layers s)"
  let ?O = "length (objects s)"
  let ?F = "\<lparr>lName = lName A, mX = mX A, mY = mY A, mWidth = mWidth A, mHeight = mHeight A,
     mMap = None, mObjects = [], mColor = None, mDrawOrder = TopDownOrder\<rparr>"
  define s1 where "s1 = s\<lparr>layers := layers s @ [ObjectGroupLayer ?F]\<rparr>"
  have al: "this < ?L" and bl: "other < ?L" using a b by (simp_all add: group_at_layers)
  have cm: "canMergeWith s other" using b by (simp add: canMergeWith_def group_at_layers)
  have new: "newObjectGroup s (lName A) (mX A) (mY A) (mWidth A) (mHeight A) = (s1, ?L)"
    by (simp add: newObjectGroup_def s1_def)
  have a1: "group_at s1 this = Inr A" using a al by (simp add: group_at_layers s1_def nth_append)
  have f1: "group_at s1 ?L = Inr ?F" by (simp add: group_at_layers s1_def)
  have va1: "list_all (\<lambda>h. h < length (objects s1)) (mObjects A)" using va by (simp add: s1_def)
  from addClones_props[OF f1 _ va1] obtain s2 where
    c2: "addClones s1 ?L (mObjects A) = Inr s2" and
    l2: "layers s2 = (layers s1)[?L := ObjectGroupLayer
          (?F\<lparr>mObjects := mObjects ?F @ [length (objects s1) ..< length (objects s1) + length (mObjects A)]\<rparr>)]" and
    o2: "objects s2 = objects s1 @ map (cloned s1 ?L) (mObjects A)" and
    n2: "nextObjectId s2 = nextObjectId s1"
    by auto
  define cg where "cg = ?F\<lparr>mObjects := [?O ..< ?O + length (mObjects A)]\<rparr>"
  have l2': "layers s2 = layers s @ [ObjectGroupLayer cg]"
    using l2 by (simp add: s1_def cg_def)
  have o2': "objects s2 = objects s @ map (cloned s ?L) (mObjects A)"
    using o2 by (simp add: s1_def cloned_def)
  have g2: "group_at s2 ?L = Inr cg" by (simp add: group_at_layers l2')
  have a2: "group_at s2 this = Inr A" using a al by (simp add: group_at_layers l2' nth_append)
  define M1 where "M1 = cg\<lparr>mColor := mColor A, mDrawOrder := mDrawOrder A\<rparr>"
  define s3 where "s3 = s2\<lparr>layers := (layers s2)[?L := ObjectGroupLayer M1]\<rparr>"
  have ic: "initializeClone s1 this ?L = Inr (s3, ?L)"
    by (simp add: initializeClone_def a1 c2 g2 a2 s3_def M1_def)
  have cl: "clone s this = Inr (s3, ?L)"
    by (simp add: clone_def a new ic)
  have l3: "layers s3 = layers s @ [ObjectGroupLayer M1]" by (simp add: s3_def l2')
  have o3: "objects s3 = objects s @ map (cloned s ?L) (mObjects A)" by (simp add: s3_def o2')
  have b3: "group_at s3 other = Inr B" using b bl by (simp add: group_at_layers l3 nth_append)
  have m3: "group_at s3 ?L = Inr M1" by (simp add: group_at_layers l3)
  have mm: "mMap M1 = None" by (simp add: M1_def cg_def)
  have vb3: "list_all (\<lambda>h. h < length (objects s3)) (mObjects B)"
    using vb by (auto simp: o3 list_all_iff)
  from addClones_props[OF m3 mm vb3] obtain s4 where
    c4: "addClones s3 ?L (mObjects B) = Inr s4" and
    l4: "layers s4 = (layers s3)[?L := ObjectGroupLayer
          (M1\<lparr>mObjects := mObjects M1 @ [length (objects s3) ..< length (objects s3) + length (mObjects B)]\<rparr>)]" and
    o4: "objects s4 = objects s3 @ map (cloned s3 ?L) (mObjects B)" and
    n4: "nextObjectId s4 = nextObjectId s3"
    by auto
  define mg where "mg = M1\<lparr>mObjects := mObjects M1 @
      [length (objects s3) ..< length (objects s3) + length (mObjects B)]\<rparr>"
  have cb: "map (cloned s3 ?L) (mObjects B) = map (cloned s ?L) (mObjects B)"
    using vb by (auto simp: cloned_def list_all_iff o3 nth_append)
  have mw: "mergedWith s this other = Inr (s4, ?L)"
    by (simp add: mergedWith_def cm cl b3 c4)
  have "layers s4 = layers s @ [ObjectGroupLayer mg]" by (simp add: l4 l3 mg_def)
  moreover have "objects s4 = objects s @ map (cloned s ?L) (mObjects A @ mObjects B)"
    by (simp add: o4 o3 cb)
  moreover have "nextObjectId s4 = nextObjectId s" by (simp add: n4 s3_def n2 s1_def)
  moreover have "mObjects mg = [?O ..< ?O + length (mObjects A) + length (mObjects B)]"
  proof -
    have "mObjects mg = [?O ..< ?O + length (mObjects A)]
        @ [?O + length (mObjects A) ..< ?O + length (mObjects A) + length (mObjects B)]"
      by (simp add: mg_def M1_def cg_def o3)
    then show ?thesis by (simp add: upt_add_eq_append[symmetric])
  qed
  moreover have "mColor mg = mColor A \<and> mDrawOrder mg = mDrawOrder A \<and> mMap mg = None"
    by (simp add: mg_def M1_def cg_def)
  ultimately show ?thesis using mw by blast
qed


section \<open>The claims\<close>

subsection \<open>C1: the sort as a rearrangement\<close>

text \<open>
  C1 claims that the name sort only permutes the entities, on every sub-range
  the recursion visits. The code does not: sorting the objects 1, 2, 3 (named a,
  B, c) first partitions the whole range, which leaves the buffer as it is and
  returns 1; the recursion then visits the sub-range from 0 to 1, and the
  partition of that range writes the element of slot 0 into the last slot of the
  buffer. Object 3 is lost and object 1 is there twice.
\<close>

theorem partition_loses_entity:
  "partition objName [1, 2, 3] 0 3 = Inr ([1, 2, 3], 1)
   \<and> partition objName [1, 2, 3] 0 1 = Inr ([1, 2, 1], 0)
   \<and> mset [1, 2, 1 :: handle] \<noteq> mset [1, 2, 3]"
  by (simp add: partition_def partition_pivot_def reorder_def loop_simps eval_defs)

subsection \<open>C2: the order after \<open>insertObject\<close>\<close>

text \<open>
  C2 claims that after \<open>insertObject\<close> the whole sequence is in name order. The
  code sorts only when the sort returns, and on three or more entities it never
  does: \<open>introSort\<close> never reaches a base case, since it reads the size of the
  whole buffer, and its last call at depth zero is a \<open>heapSort\<close> that cannot
  return. So \<open>insertObject\<close> into a group that already holds two or more objects
  never returns, whatever the fuel: it runs for ever or aborts on a range
  assertion.
\<close>

theorem insertObject_does_not_return:
  "group_at s this = Inr og \<Longrightarrow> 2 \<le> length (mObjects og) \<Longrightarrow>
   insertObject fuel s this index object \<noteq> Some (Inr s')"
proof -
  assume g: "group_at s this = Inr og" and n: "2 \<le> length (mObjects og)"
  have "3 \<le> length (qlist_insert (mObjects og) index object)"
    using n by (simp add: qlist_insert_def)
  from sort_never[OF this] g show ?thesis
    by (auto simp: insertObject_def bindR_Inr)
qed

theorem insertObject_does_not_return_witness:
  "\<forall>fuel index s'. insertObject fuel exampleStore 0 index 3 \<noteq> Some (Inr s')"
  using insertObject_does_not_return[of exampleStore 0 _ _ _ 3]
  by (simp add: exampleStore_def group_at_def)

subsection \<open>C3: the base cases of \<open>introSort\<close>\<close>

text \<open>
  C3 claims that the base cases of \<open>introSort\<close> go by the size of the range. The
  code takes the size of the whole buffer. On the buffer 1, 2, 3 and the range
  from 0 to 1, of size one, the call does not return the buffer as it is: it
  partitions and returns 1, 2, 1. On a buffer of two elements and the empty
  range from 1 to 1 it exchanges the slots 0 and 1.
\<close>

theorem introSort_ignores_range_size:
  "introSort 5 objName [1, 2, 3] 1 0 1 = Some (Inr [1, 2, 1])
   \<and> introSort 1 objName [3, 1] 5 1 1 = Some (Inr [1, 3])"
  by (simp add: eval_nat_numeral partition_def partition_pivot_def reorder_def heapSort_def
      heapify_def siftDown_def loop_simps eval_defs)

subsection \<open>C4: termination of \<open>heapSort\<close>\<close>

text \<open>
  C4 claims that \<open>heapSort\<close> terminates on every range of at least two elements.
  In the code the loop tests \<open>last\<close> and decrements \<open>end\<close>, so that its test
  never changes: on a range of at least two elements that starts at a valid
  index the call never returns, whatever the fuel. It runs for ever or aborts on
  a range assertion.
\<close>

theorem heapSort_does_not_return:
  "0 \<le> b \<Longrightarrow> b + 2 \<le> e \<Longrightarrow> heapSort fuel vec b e \<noteq> Some (Inr r)"
  using heapSort_never[of e fuel vec b r] by simp

theorem heapSort_does_not_return_witness:
  "\<forall>fuel r. heapSort fuel [3, 2, 1] 0 3 \<noteq> Some (Inr r)"
  using heapSort_does_not_return[of 0 3 _ "[3, 2, 1]"] by simp

subsection \<open>C5: what \<open>reorder\<close> builds\<close>

text \<open>
  C5 claims that \<open>reorder\<close> keeps the prefix, puts the pivot first in the middle,
  followed by the elements whose name is greater or equal and then by those
  whose name is less, and returns \<open>begin\<close> plus the number of greater-or-equal
  elements. On the buffer 6, 7, 1, 2, 3, 4 with the pivot 3 and the range from 2
  to 6 the code returns 7, 6, 2, 1, 3, 4 and the position 4: the prefix is
  reversed, slot 2 does not hold the pivot, and 4 is not 2 plus the one element
  (object 4) whose name is greater or equal.
\<close>

theorem reorder_counterexample:
  "reorder objName [6, 7, 1, 2, 3, 4] 3 2 6 = Inr ([7, 6, 2, 1, 3, 4], 4)
   \<and> take 2 [7, 6, 2, 1, 3, 4] \<noteq> take 2 [6, 7, 1, 2, 3, 4 :: handle]
   \<and> [7, 6, 2, 1, 3, 4] ! 2 \<noteq> (3 :: handle)
   \<and> (4 :: int) \<noteq> 2 + int (length (filter (nameGeq objName 3) (rangeWithoutPivot [6, 7, 1, 2, 3, 4] 3 2 6)))"
  by (simp add: reorder_def loop_simps rangeWithoutPivot_def nameGeq_def eval_defs)

text \<open>
  C5 as amended. For a range from \<open>b\<close> to \<open>e\<close> inside the buffer that holds the
  pivot, \<open>reorder\<close> returns a buffer of the same length with the suffix from \<open>e\<close>
  unchanged. With one occurrence of the pivot taken out of the range, the middle
  holds the elements whose name is less than or equal to the pivot's, in reverse
  scan order, then the pivot, then the elements whose name is greater, in scan
  order. The value returned is \<open>b\<close> plus the number of less-or-equal elements,
  which is the slot of the pivot.
\<close>

theorem reorder_splits_range:
  assumes "b \<le> e" and "e \<le> length vec" and "pivot \<in> set (take (e - b) (drop b vec))"
  shows "\<exists>newVec.
      reorder nm vec pivot (int b) (int e) =
        Inr (newVec, int b + int (length (filter (nameLeq nm pivot) (rangeWithoutPivot vec pivot b e))))
    \<and> length newVec = length vec
    \<and> take (e - b) (drop b newVec) =
        rev (filter (nameLeq nm pivot) (rangeWithoutPivot vec pivot b e)) @ pivot #
        filter (\<lambda>v. \<not> nameLeq nm pivot v) (rangeWithoutPivot vec pivot b e)
    \<and> drop e newVec = drop e vec
    \<and> newVec ! (b + length (filter (nameLeq nm pivot) (rangeWithoutPivot vec pivot b e))) = pivot"
proof -
  let ?R = "rangeWithoutPivot vec pivot b e"
  let ?L = "filter (nameLeq nm pivot) ?R"
  let ?G = "filter (\<lambda>v. \<not> nameLeq nm pivot v) ?R"
  let ?new = "rev (take b vec) @ rev ?L @ [pivot] @ ?G @ drop e vec"
  have lenR: "Suc (length ?R) = e - b"
    using assms by (simp add: rangeWithoutPivot_def length_remove1) (cases "e - b"; auto)
  have lg: "length ?L + length ?G = length ?R"
    by (rule sum_length_filter_compl)
  have mid: "Suc (length ?L + length ?G) = e - b" using lenR lg by simp
  have bl: "b \<le> length vec" using assms by simp
  have "length ?new = length vec"
    using mid assms by simp
  moreover have "drop b ?new = rev ?L @ [pivot] @ ?G @ drop e vec"
    using bl by simp
  moreover have "take (e - b) (rev ?L @ [pivot] @ ?G @ drop e vec) = rev ?L @ pivot # ?G"
  proof -
    define M where "M = rev ?L @ pivot # ?G"
    have "length M = e - b" using mid by (simp add: M_def)
    then have "take (e - b) (M @ drop e vec) = M" by simp
    then show ?thesis by (simp add: M_def)
  qed
  moreover have "drop e ?new = drop e vec"
  proof -
    have "e = length (rev (take b vec) @ rev ?L @ [pivot] @ ?G)"
      using mid assms by simp
    then show ?thesis
      by (metis append.assoc append_eq_conv_conj)
  qed
  moreover have "?new ! (b + length ?L) = pivot"
  proof -
    have "b + length ?L = length (rev (take b vec) @ rev ?L)" using bl by simp
    then show ?thesis
      by (metis append.assoc append_Cons nth_append_length)
  qed
  ultimately show ?thesis
    using reorder_result[OF assms, of nm] by simp
qed

theorem reorder_splits_range_witness:
  "\<exists>newVec. reorder objName [6, 7, 1, 2, 3, 4] 3 2 6 = Inr (newVec, 4)
     \<and> length newVec = 6
     \<and> take 4 (drop 2 newVec) = [2, 1, 3, 4]
     \<and> drop 6 newVec = []
     \<and> newVec ! 4 = 3"
  using reorder_splits_range[of 2 6 "[6, 7, 1, 2, 3, 4]" 3 objName]
  by (simp add: rangeWithoutPivot_def nameLeq_def eval_defs eval_nat_numeral)

subsection \<open>C6: the pivot of \<open>partition\<close>\<close>

text \<open>
  C6 claims that \<open>partition\<close> rearranges the three candidates within the range,
  the extremes going to \<open>begin\<close> and \<open>end - 1\<close>. The code writes to slot 0 and to
  the last slot of the buffer instead. Sorting the objects 1 to 7 partitions the
  whole range first, which gives 3, 2, 1, 4, 5, 6, 7 and the pivot position 3;
  the recursion then partitions the range from 0 to 3, where the assignments of
  \<open>partition\<close> put object 3 into slot 6, outside the range, and leave object 1 in
  slot 2 as well as in slot 0. The pivot chosen, object 2, is the median.
\<close>

theorem partition_pivot_writes_outside_range:
  "partition objName [1, 2, 3, 4, 5, 6, 7] 0 7 = Inr ([3, 2, 1, 4, 5, 6, 7], 3)
   \<and> partition_pivot objName [3, 2, 1, 4, 5, 6, 7] 0 3 = Inr ([1, 2, 1, 4, 5, 6, 3], 2)"
  by (simp add: partition_def partition_pivot_def reorder_def loop_simps eval_defs)

subsection \<open>C7: the heap fallback\<close>

text \<open>
  C7 claims that the heap fallback leaves its range sorted by name. In the code
  \<open>siftDown\<close> compares the pointers, not the names, and never exchanges two
  elements, and \<open>heapSort\<close> does not return on a range of two or more. On the
  buffer 7, 6, 5 with the names a, B, c, \<open>heapify\<close> returns the buffer as it
  is, with the smallest name at the root, and \<open>heapSort\<close> never returns.
\<close>

theorem heap_fallback_does_not_sort:
  "heapify 2 [7, 6, 5] 0 3 = Some (Inr [7, 6, 5])
   \<and> compare_ci (revName 7) (revName 6) < 0
   \<and> compare_ci (revName 7) (revName 5) < 0
   \<and> (\<forall>fuel r. heapSort fuel [7, 6, 5] 0 3 \<noteq> Some (Inr r))"
  using heapSort_never[of 3 _ "[7, 6, 5]" 0]
  by (simp add: eval_nat_numeral heapify_def siftDown_def revName_def eval_defs)

subsection \<open>C8: \<open>moveObjects\<close>\<close>

text \<open>
  C8 claims that for \<open>count \<ge> 0\<close> and a destination outside the moving range
  \<open>moveObjects\<close> puts the block at the destination in its order, the other
  entities keeping theirs. The code checks nothing else about its arguments. On
  five entities, \<open>from = 3\<close>, \<open>to = - 2\<close> and \<open>count = 2\<close> pass both assertions;
  each of the two inserts lands at an index below zero, where \<^verbatim>\<open>QList::insert\<close>
  prepends, and the block 40, 50 arrives as 50, 40. With \<open>from = 4\<close>, \<open>to = 0\<close>,
  \<open>count = 3\<close> the block runs past the end of the list, and with \<open>from = - 1\<close>,
  \<open>to = 2\<close>, \<open>count = 2\<close> it starts before the list: \<^verbatim>\<open>QList::erase\<close> is handed an
  iterator outside the list and nothing is relocated.
\<close>

theorem moveObjects_counterexample:
  "(0 :: int) \<le> 2 \<and> (- 2 :: int) \<le> 3
   \<and> moveObjects [10, 20, 30, 40, 50 :: nat] 3 (- 2) 2 = Inr [50, 40, 10, 20, 30]
   \<and> take 2 (drop 3 [10, 20, 30, 40, 50 :: nat]) = [40, 50]
   \<and> (0 :: int) \<le> 3 \<and> (0 :: int) \<le> 4
   \<and> moveObjects [10, 20, 30, 40, 50 :: nat] 4 0 3 = Inl IndexOutOfRange
   \<and> (- 1 :: int) + 2 \<le> 2
   \<and> moveObjects [10, 20, 30, 40, 50 :: nat] (- 1) 2 2 = Inl IndexOutOfRange"
  by (simp add: moveObjects_def qlist_mid_def qlist_erase_def qlist_insert_def
      insertMoving.simps vec_at_def)

text \<open>
  C8 as amended: for \<open>count \<ge> 0\<close>, a destination outside the moving range, the
  block inside the list (\<open>0 \<le> from\<close> and \<open>from + count\<close> at most the size) and
  \<open>0 \<le> to\<close>, \<open>moveObjects\<close> returns the list in which the block of \<open>count\<close>
  entities from \<open>from\<close> stands, in its order, in front of the entity that was at
  index \<open>to\<close> (at the end when there is none), and the other entities keep their
  relative order: the result is spelt out for a destination before the block
  and for one after it. For \<open>to = from\<close>, \<open>to = from + count\<close> and \<open>count = 0\<close> the
  list is unchanged.
\<close>

theorem moveObjects_relocates:
  assumes "0 \<le> count'" and "to \<le> from \<or> from + count' \<le> to"
    and "0 \<le> from" and "from + count' \<le> int (length objs)"
    and "0 \<le> to"
  shows "\<exists>ys. moveObjects objs from to count' = Inr ys
    \<and> (to \<le> from \<longrightarrow>
         ys = take (nat to) objs @ take (nat count') (drop (nat from) objs)
              @ drop (nat to) (take (nat from) objs) @ drop (nat (from + count')) objs)
    \<and> (from + count' \<le> to \<longrightarrow>
         ys = take (nat from) objs @ drop (nat (from + count')) (take (nat to) objs)
              @ take (nat count') (drop (nat from) objs) @ drop (nat to) objs)
    \<and> (to = from \<or> to = from + count' \<or> count' = 0 \<longrightarrow> ys = objs)"
proof -
  define f t c where "f = nat from" and "t = nat to" and "c = nat count'"
  have i: "from = int f" "to = int t" "count' = int c"
    using assms by (simp_all add: f_def t_def c_def)
  have ov: "t \<le> f \<or> f + c \<le> t" using assms(2) unfolding i by linarith
  have fc: "f + c \<le> length objs" using assms(4) unfolding i by linarith
  have fcn: "nat (from + count') = f + c" by (simp add: i nat_add_distrib)
  have r: "moveObjects objs from to count' = Inr (moved objs f t c)"
    using moveObjects_nat[OF ov fc] by (simp add: i)
  have p1: "moved objs f t c = take t objs @ take c (drop f objs)
              @ drop t (take f objs) @ drop (f + c) objs" if "t \<le> f"
    using that by (simp add: moved_def)
  have p2: "moved objs f t c = take f objs @ drop (f + c) (take t objs)
              @ take c (drop f objs) @ drop t objs" if "f + c \<le> t"
  proof (cases "t \<le> f")
    case True
    with that have "c = 0" "t = f" by simp_all
    then show ?thesis by (simp add: moved_def)
  next
    case False
    then show ?thesis by (simp add: moved_def)
  qed
  have p3: "moved objs f t c = objs" if "t = f \<or> t = f + c \<or> c = 0"
    using moved_noop[OF that] .
  have q1: "to \<le> from \<longleftrightarrow> t \<le> f" and q2: "from + count' \<le> to \<longleftrightarrow> f + c \<le> t"
    and q3: "to = from \<or> to = from + count' \<or> count' = 0 \<longleftrightarrow> t = f \<or> t = f + c \<or> c = 0"
    unfolding i by linarith+
  have "\<exists>ys. moveObjects objs from to count' = Inr ys
    \<and> (t \<le> f \<longrightarrow>
         ys = take t objs @ take c (drop f objs) @ drop t (take f objs) @ drop (f + c) objs)
    \<and> (f + c \<le> t \<longrightarrow>
         ys = take f objs @ drop (f + c) (take t objs) @ take c (drop f objs) @ drop t objs)
    \<and> (t = f \<or> t = f + c \<or> c = 0 \<longrightarrow> ys = objs)"
    using r p1 p2 p3 by blast
  then show ?thesis
    unfolding q1 q2 q3 fcn f_def t_def c_def .
qed

theorem moveObjects_relocates_witness:
  "moveObjects [10, 20, 30, 40, 50 :: nat] 1 4 2 = Inr [10, 40, 20, 30, 50]
   \<and> moveObjects [10, 20, 30, 40, 50 :: nat] 3 0 2 = Inr [40, 50, 10, 20, 30]
   \<and> moveObjects [10, 20, 30, 40, 50 :: nat] 1 3 2 = Inr [10, 20, 30, 40, 50]
   \<and> moveObjects [10, 20, 30, 40, 50 :: nat] 1 7 2 = Inr [10, 40, 50, 20, 30]"
  using moveObjects_relocates[of 2 4 1 "[10, 20, 30, 40, 50 :: nat]"]
    moveObjects_relocates[of 2 0 3 "[10, 20, 30, 40, 50 :: nat]"]
    moveObjects_relocates[of 2 3 1 "[10, 20, 30, 40, 50 :: nat]"]
    moveObjects_relocates[of 2 7 1 "[10, 20, 30, 40, 50 :: nat]"]
  by simp

subsection \<open>C10: \<open>mergedWith\<close> and its operands\<close>

text \<open>
  C10: \<open>mergedWith\<close> on two valid object groups returns a new group and leaves
  both operands as they were: each is the same record, holding the same pointers
  in the same order, and every object they point to is unchanged, its
  back-reference included; no layer and no object that existed before is
  touched. The merged group holds one object for each object of the two
  operands, with the same names in the same order; each of them is at an address
  that addressed nothing before, so it is no entity of either operand, and its
  back-reference is the merged group.
\<close>

theorem mergedWith_leaves_operands_unchanged:
  assumes "validGroup s this" and "validGroup s other"
  shows "\<exists>s' merged. mergedWith s this other = Inr (s', merged)
    \<and> group_at s' this = group_at s this
    \<and> group_at s' other = group_at s other
    \<and> list_all (\<lambda>h. object_at s' h = object_at s h) (objectsOf s this @ objectsOf s other)
    \<and> take (length (layers s)) (layers s') = layers s
    \<and> take (length (objects s)) (objects s') = objects s
    \<and> validGroup s' merged
    \<and> length (objectsOf s' merged) = length (objectsOf s this) + length (objectsOf s other)
    \<and> list_all (\<lambda>h. h \<notin> set (objectsOf s this) \<and> h \<notin> set (objectsOf s other)
                      \<and> object_at s h = Inl InvalidPointer) (objectsOf s' merged)
    \<and> list_all (\<lambda>h. \<exists>ob. object_at s' h = Inr ob \<and> mObjectGroup ob = Some merged)
          (objectsOf s' merged)
    \<and> map (nameOf s') (objectsOf s' merged) = map (nameOf s) (objectsOf s this @ objectsOf s other)"
proof -
  from assms obtain A B where a: "group_at s this = Inr A" and b: "group_at s other = Inr B"
    and va: "list_all (\<lambda>h. h < length (objects s)) (mObjects A)"
    and vb: "list_all (\<lambda>h. h < length (objects s)) (mObjects B)"
    by (auto simp: validGroup_def split: sum.splits)
  let ?L = "length (layers s)"
  let ?O = "length (objects s)"
  let ?hs = "mObjects A @ mObjects B"
  from mergedWith_result[OF a b va vb] obtain s' mg where
    mw: "mergedWith s this other = Inr (s', ?L)" and
    l: "layers s' = layers s @ [ObjectGroupLayer mg]" and
    o: "objects s' = objects s @ map (cloned s ?L) ?hs" and
    mo: "mObjects mg = [?O ..< ?O + length (mObjects A) + length (mObjects B)]"
    by blast
  have al: "this < ?L" and bl: "other < ?L" using a b by (simp_all add: group_at_layers)
  have oa: "objectsOf s this = mObjects A" and ob: "objectsOf s other = mObjects B"
    by (simp_all add: objectsOf_def a b)
  have v: "list_all (\<lambda>h. h < ?O) ?hs" using va vb by simp
  have gm: "group_at s' ?L = Inr mg" by (simp add: group_at_layers l)
  have om: "objectsOf s' ?L = [?O ..< ?O + length ?hs]"
    by (simp add: objectsOf_def gm mo add.assoc)
  have c1: "group_at s' this = group_at s this"
    using al by (simp add: group_at_def l nth_append)
  have c2: "group_at s' other = group_at s other"
    using bl by (simp add: group_at_def l nth_append)
  have c3: "list_all (\<lambda>h. object_at s' h = object_at s h) (objectsOf s this @ objectsOf s other)"
    unfolding list_all_iff
  proof
    fix h assume "h \<in> set (objectsOf s this @ objectsOf s other)"
    then have "h < ?O" using v by (auto simp: oa ob list_all_iff)
    then show "object_at s' h = object_at s h" by (simp add: object_at_def o nth_append)
  qed
  have c4: "take ?L (layers s') = layers s" by (simp add: l)
  have c5: "take ?O (objects s') = objects s" by (simp add: o)
  have c6: "validGroup s' ?L"
    by (auto simp: validGroup_def gm mo o list_all_iff)
  have c7: "length (objectsOf s' ?L) = length (objectsOf s this) + length (objectsOf s other)"
    by (simp add: om oa ob)
  have c8: "list_all (\<lambda>h. h \<notin> set (objectsOf s this) \<and> h \<notin> set (objectsOf s other)
                      \<and> object_at s h = Inl InvalidPointer) (objectsOf s' ?L)"
  proof -
    have "h < ?O" if "h \<in> set (mObjects A) \<or> h \<in> set (mObjects B)" for h
      using that va vb by (auto simp: list_all_iff)
    then have "h \<notin> set (mObjects A) \<and> h \<notin> set (mObjects B)" if "?O \<le> h" for h
      using that by (meson not_le)
    then show ?thesis
      by (simp add: om oa ob list_all_iff object_at_def)
  qed
  have c9: "list_all (\<lambda>h. \<exists>ob. object_at s' h = Inr ob \<and> mObjectGroup ob = Some ?L)
          (objectsOf s' ?L)"
    by (auto simp: om list_all_iff object_at_def o nth_append cloned_def)
  have c10: "map (nameOf s') (objectsOf s' ?L) = map (nameOf s) (objectsOf s this @ objectsOf s other)"
  proof (rule nth_equalityI)
    show "length (map (nameOf s') (objectsOf s' ?L))
        = length (map (nameOf s) (objectsOf s this @ objectsOf s other))"
      by (simp add: om oa ob)
  next
    fix i assume "i < length (map (nameOf s') (objectsOf s' ?L))"
    then have i: "i < length ?hs" by (simp add: om)
    then have "?hs ! i < ?O" using v by (simp add: list_all_length)
    then show "map (nameOf s') (objectsOf s' ?L) ! i
        = map (nameOf s) (objectsOf s this @ objectsOf s other) ! i"
      using i by (auto simp: om oa ob nameOf_def o nth_append cloned_def split: if_splits)
  qed
  from mw c1 c2 c3 c4 c5 c6 c7 c8 c9 c10 show ?thesis by blast
qed

theorem mergedWith_leaves_operands_unchanged_witness:
  "\<exists>s' merged. mergedWith exampleStore 0 1 = Inr (s', merged)
    \<and> group_at s' 0 = group_at exampleStore 0
    \<and> group_at s' 1 = group_at exampleStore 1
    \<and> list_all (\<lambda>h. object_at s' h = object_at exampleStore h)
          (objectsOf exampleStore 0 @ objectsOf exampleStore 1)
    \<and> take (length (layers exampleStore)) (layers s') = layers exampleStore
    \<and> take (length (objects exampleStore)) (objects s') = objects exampleStore
    \<and> validGroup s' merged
    \<and> length (objectsOf s' merged)
        = length (objectsOf exampleStore 0) + length (objectsOf exampleStore 1)
    \<and> list_all (\<lambda>h. h \<notin> set (objectsOf exampleStore 0) \<and> h \<notin> set (objectsOf exampleStore 1)
                      \<and> object_at exampleStore h = Inl InvalidPointer) (objectsOf s' merged)
    \<and> list_all (\<lambda>h. \<exists>ob. object_at s' h = Inr ob \<and> mObjectGroup ob = Some merged)
          (objectsOf s' merged)
    \<and> map (nameOf s') (objectsOf s' merged)
        = map (nameOf exampleStore) (objectsOf exampleStore 0 @ objectsOf exampleStore 1)"
  by (rule mergedWith_leaves_operands_unchanged)
    (simp_all add: validGroup_def group_at_def exampleStore_def)

end
